theory Spec2Isabelle
  imports Complex_Main "HOL-Library.Sublist"
begin

section \<open>The draft room of triple-draft: data model\<close>

text \<open>
  The draft room is \<^verbatim>\<open>src/app/draft/[roomCode]/page.tsx\<close>. Identifiers are
  JavaScript strings, pick numbers are JavaScript numbers that only ever hold integers
  (a list length plus one, or the integer column \<^verbatim>\<open>round\<close>), modelled as \<open>int\<close>.
  A value that may be \<^verbatim>\<open>null\<close> or \<^verbatim>\<open>undefined\<close> is an \<open>option\<close>.
\<close>

record Room =
  room_ident :: string
  room_name :: string
  draft_order :: "string list"

record Coach =
  coach_ident :: string
  coach_name :: string

text \<open>
  \<^verbatim>\<open>PickPlayer\<close> has the fields of \<^verbatim>\<open>Player\<close> except \<^verbatim>\<open>room_id\<close>;
  \<^verbatim>\<open>PickCoach\<close> has the fields of \<^verbatim>\<open>Coach\<close>.
\<close>

record PickPlayer =
  player_ident :: string
  player_name :: string
  nfl_team :: string
  position :: string
  ppg :: "real option"

record Player = PickPlayer +
  player_room_id :: string

type_synonym PickCoach = Coach

text \<open>
  A row of the table \<^verbatim>\<open>picks\<close>. The column \<^verbatim>\<open>round\<close> holds the overall pick
  number. The key \<^verbatim>\<open>id\<close> and the time \<^verbatim>\<open>created_at\<close> are filled in by the
  database; they are modelled by a serial number.
\<close>

record picks_row =
  pick_ident :: nat
  room_id :: string
  coach_id :: string
  round' :: int
  player_id :: string
  created_at :: nat

text \<open>
  \<^verbatim>\<open>PickRow\<close>: a row as \<^verbatim>\<open>loadPicks\<close> receives it, with the player and the
  coach it refers to joined in (absent when no such row exists).
\<close>

record PickRow = picks_row +
  player :: "PickPlayer option"
  coach' :: "PickCoach option"

text \<open>
  The tables the page reads and writes. The table \<^verbatim>\<open>picks\<close> holds the picks of all
  rooms, in insertion order.
\<close>

record database =
  players_tbl :: "Player list"
  coaches_tbl :: "Coach list"
  picks_tbl :: "picks_row list"
  serial :: nat

text \<open>
  The constraints the database puts on the table \<^verbatim>\<open>picks\<close> are not part of the
  repository. They are a parameter: given the table and a new row, \<open>None\<close> accepts the
  row and \<open>Some msg\<close> rejects it with the message \<open>msg\<close>.
\<close>

type_synonym table_constraint = "picks_row list \<Rightarrow> picks_row \<Rightarrow> string option"

text \<open>The state of one open page (the React state of \<^verbatim>\<open>DraftRoomPage\<close>).\<close>

record client =
  room :: "Room option"
  coach :: "Coach option"
  players :: "Player list"
  picks :: "PickRow list"
  search :: string
  posFilter :: string

text \<open>
  What an action reports. \<open>NotLoaded\<close> and \<open>Declined\<close> are the two silent returns
  (no room or coach loaded; the confirmation dialog answered with no); the others are the
  alerts: "Draft order is not set for this room." (\<open>InvalidConfiguration\<close>),
  "Not your turn." (\<open>OutOfTurn\<close>), "You already drafted a player from ..."
  (\<open>TeamConflict\<close>), "That player is already drafted." (\<open>AlreadyDrafted\<close>),
  "Commissioner only." (\<open>Forbidden\<close>), "No picks to undo." (\<open>EmptyLedger\<close>), and the
  message of a database error (\<open>DbError\<close>).
\<close>

datatype error =
    NotLoaded
  | InvalidConfiguration
  | OutOfTurn
  | TeamConflict
  | AlreadyDrafted
  | DbError string
  | Forbidden
  | Declined
  | EmptyLedger

section \<open>Draft order resolver\<close>

text \<open>
  \<^verbatim>\<open>Math.ceil(a / n)\<close> for integers \<open>a\<close> and \<open>n > 0\<close> (the quotient of two pick
  numbers is far from the range where a double rounds to the wrong side of an integer),
  and the remainder operator \<^verbatim>\<open>%\<close> of JavaScript for a divisor other than 0, whose
  result takes the sign of the dividend.
\<close>

definition Math_ceil_div :: "int \<Rightarrow> int \<Rightarrow> int" where
  "Math_ceil_div a n = - ((- a) div n)"

definition js_rem :: "int \<Rightarrow> int \<Rightarrow> int" where
  "js_rem a b = sgn a * (\<bar>a\<bar> mod \<bar>b\<bar>)"

text \<open>\<^verbatim>\<open>xs[i] ?? null\<close>: an index outside the array reads \<^verbatim>\<open>undefined\<close>.\<close>

definition index_or_null :: "'a list \<Rightarrow> int \<Rightarrow> 'a option" where
  "index_or_null xs i = (if 0 \<le> i \<and> i < int (length xs) then Some (xs ! nat i) else None)"

definition getCoachIdForPick :: "int \<Rightarrow> string list \<Rightarrow> string option" where
  "getCoachIdForPick overallPickNumber draftOrder =
     (let n = int (length draftOrder) in
      if n = 0 then None
      else
        let roundNumber = Math_ceil_div overallPickNumber n;
            indexInRound0 = js_rem (overallPickNumber - 1) n;
            isReverse = (roundNumber = 2 \<or> roundNumber = 3 \<or>
                         (roundNumber \<ge> 5 \<and> js_rem roundNumber 2 = 1));
            idx = (if isReverse then n - 1 - indexInRound0 else indexInRound0)
        in index_or_null draftOrder idx)"

definition getNextCoachIdForPick :: "int \<Rightarrow> string list \<Rightarrow> string option" where
  "getNextCoachIdForPick overallPickNumber draftOrder =
     getCoachIdForPick (overallPickNumber + 1) draftOrder"

subsection \<open>The resolver as the specification words it\<close>

text \<open>
  Section 4.1 of the specification: \<open>round = ceil(pickNumber / N)\<close>,
  \<open>indexInRound0 = (pickNumber - 1) mod N\<close>, reversed when the round is 2 or 3, or is
  odd and at least 5.
\<close>

definition spec_round :: "int \<Rightarrow> nat \<Rightarrow> int" where
  "spec_round p N = \<lceil>real_of_int p / real N\<rceil>"

definition spec_indexInRound0 :: "int \<Rightarrow> nat \<Rightarrow> nat" where
  "spec_indexInRound0 p N = nat ((p - 1) mod int N)"

definition spec_reversed :: "int \<Rightarrow> bool" where
  "spec_reversed r = (r \<in> {2, 3} \<or> (r \<ge> 5 \<and> odd r))"

definition spec_index :: "int \<Rightarrow> nat \<Rightarrow> nat" where
  "spec_index p N =
     (if spec_reversed (spec_round p N) then N - 1 - spec_indexInRound0 p N
      else spec_indexInRound0 p N)"

section \<open>Reading and writing the table of picks\<close>

definition ledger :: "database \<Rightarrow> string \<Rightarrow> picks_row list" where
  "ledger db roomId = filter (\<lambda>r. room_id r = roomId) (picks_tbl db)"

text \<open>The embedded resources of \<^verbatim>\<open>loadPicks\<close>: the rows the foreign keys point to.\<close>

definition player_of :: "database \<Rightarrow> string \<Rightarrow> PickPlayer option" where
  "player_of db pid =
     map_option
       (\<lambda>q. \<lparr>player_ident = player_ident q, player_name = player_name q,
              nfl_team = nfl_team q, position = position q, ppg = ppg q\<rparr>)
       (find (\<lambda>q. player_ident q = pid) (players_tbl db))"

definition coach_of :: "database \<Rightarrow> string \<Rightarrow> PickCoach option" where
  "coach_of db cid = find (\<lambda>k. coach_ident k = cid) (coaches_tbl db)"

definition joined :: "database \<Rightarrow> picks_row \<Rightarrow> PickRow" where
  "joined db r =
     \<lparr>pick_ident = pick_ident r, room_id = room_id r, coach_id = coach_id r,
      round' = round' r, player_id = player_id r, created_at = created_at r,
      player = player_of db (player_id r), coach' = coach_of db (coach_id r)\<rparr>"

text \<open>
  \<^verbatim>\<open>loadPicks\<close>: the picks of the room ordered by \<^verbatim>\<open>round\<close> ascending (rows
  with equal \<^verbatim>\<open>round\<close> stay in table order).
\<close>

definition loadPicks :: "database \<Rightarrow> string \<Rightarrow> PickRow list" where
  "loadPicks db roomId = sort_key round' (map (joined db) (ledger db roomId))"

text \<open>
  The insert of \<^verbatim>\<open>draftPlayer\<close>: the database fills in the key and the time, checks
  its constraints, and appends the row or answers with an error message.
\<close>

definition insert_pick ::
  "table_constraint \<Rightarrow> database \<Rightarrow> string \<Rightarrow> string \<Rightarrow> int \<Rightarrow> string \<Rightarrow> string + database" where
  "insert_pick chk db roomId coachId overallPickNumber playerId =
     (let new = \<lparr>pick_ident = serial db, room_id = roomId, coach_id = coachId,
                 round' = overallPickNumber, player_id = playerId, created_at = serial db\<rparr>
      in case chk (picks_tbl db) new of
           Some msg \<Rightarrow> Inl msg
         | None \<Rightarrow> Inr (db\<lparr>picks_tbl := picks_tbl db @ [new], serial := Suc (serial db)\<rparr>))"

text \<open>
  The query of \<^verbatim>\<open>undoLastPick\<close>: order by \<^verbatim>\<open>round\<close> descending, then by
  \<^verbatim>\<open>created_at\<close> descending, limit 1. Of two rows equal in both columns the
  database may answer either; here it is the one later in the table.
\<close>

fun latest_pick :: "picks_row list \<Rightarrow> picks_row option" where
  "latest_pick [] = None"
| "latest_pick (x # xs) =
     (case latest_pick xs of
        None \<Rightarrow> Some x
      | Some y \<Rightarrow>
          if round' y < round' x \<or> (round' y = round' x \<and> created_at y < created_at x)
          then Some x else Some y)"

definition delete_pick :: "database \<Rightarrow> nat \<Rightarrow> database" where
  "delete_pick db i = db\<lparr>picks_tbl := filter (\<lambda>r. pick_ident r \<noteq> i) (picks_tbl db)\<rparr>"

text \<open>Two tables of constraints to run the page against.\<close>

definition unconstrained :: table_constraint where
  "unconstrained rows new = None"

definition unique_keys :: table_constraint where
  "unique_keys rows new =
     (if \<exists>r \<in> set rows. room_id r = room_id new \<and>
            (round' r = round' new \<or> player_id r = player_id new)
      then Some ''duplicate key value violates unique constraint'' else None)"

section \<open>Derived values of the page\<close>

definition isCommissioner :: "client \<Rightarrow> bool" where
  "isCommissioner c = (case coach c of None \<Rightarrow> False | Some k \<Rightarrow> coach_name k = ''Rowland'')"

definition draftedPlayerIds :: "client \<Rightarrow> string set" where
  "draftedPlayerIds c = set (map player_id (picks c))"

definition myPicks :: "client \<Rightarrow> PickRow list" where
  "myPicks c =
     (case coach c of
        None \<Rightarrow> []
      | Some me \<Rightarrow>
          sort_key round'
            (filter
               (\<lambda>p. case coach' p of
                      Some k \<Rightarrow>
                        if coach_ident k \<noteq> [] then coach_ident k = coach_ident me
                        else coach_id p = coach_ident me
                    | None \<Rightarrow> coach_id p = coach_ident me)
               (picks c)))"

text \<open>
  \<^verbatim>\<open>filter(Boolean)\<close> drops \<^verbatim>\<open>undefined\<close> (no joined player) and the empty
  string.
\<close>

definition myTeamsUsed :: "client \<Rightarrow> string set" where
  "myTeamsUsed c =
     set (List.map_filter
            (\<lambda>p. case player p of
                   None \<Rightarrow> None
                 | Some q \<Rightarrow> if nfl_team q \<noteq> [] then Some (nfl_team q) else None)
            (myPicks c))"

text \<open>
  \<^verbatim>\<open>String.prototype.trim\<close> and \<^verbatim>\<open>String.prototype.toLowerCase\<close> belong
  to the JavaScript library and follow the Unicode tables; \<open>availablePlayers\<close> takes
  them as its first two arguments. On ASCII text they are the two functions below
  (the letters A to Z in lower case, the white space 9 to 13 and 32 stripped), with which
  the small room is run.
\<close>

definition lower_char :: "char \<Rightarrow> char" where
  "lower_char ch =
     (let k = (of_char ch :: nat) in if 65 \<le> k \<and> k \<le> 90 then char_of (k + 32) else ch)"

definition ascii_toLowerCase :: "string \<Rightarrow> string" where
  "ascii_toLowerCase s = map lower_char s"

definition is_space :: "char \<Rightarrow> bool" where
  "is_space ch = ((of_char ch :: nat) \<in> {9, 10, 11, 12, 13, 32})"

definition ascii_trim :: "string \<Rightarrow> string" where
  "ascii_trim s = rev (dropWhile is_space (rev (dropWhile is_space s)))"

definition includes' :: "string \<Rightarrow> string \<Rightarrow> bool" where
  "includes' s q = sublist q s"

definition availablePlayers ::
  "(string \<Rightarrow> string) \<Rightarrow> (string \<Rightarrow> string) \<Rightarrow> client \<Rightarrow> Player list" where
  "availablePlayers trim toLowerCase c =
     (let q = toLowerCase (trim (search c)) in
      filter
        (\<lambda>p. q = [] \<or>
              includes' (toLowerCase (player_name p)) q \<or>
              includes' (toLowerCase (nfl_team p)) q \<or>
              includes' (toLowerCase (position p)) q)
        (filter (\<lambda>p. posFilter c = ''ALL'' \<or> position p = posFilter c)
           (filter (\<lambda>p. player_ident p \<notin> draftedPlayerIds c)
              (filter (\<lambda>p. position p \<notin> set [''K'', ''DST'']) (players c)))))"

definition nextOverallPick :: "client \<Rightarrow> int" where
  "nextOverallPick c = int (length (picks c)) + 1"

section \<open>Actions\<close>

text \<open>
  An action returns the alert (or silent return) it ends with, or the page and the
  database after the write. A failed action leaves both as they were: every alert of
  \<^verbatim>\<open>draftPlayer\<close> and \<^verbatim>\<open>undoLastPick\<close> comes before the write or is the
  refusal of the write. Reads are taken to succeed, and exceptions of the client library
  (the \<^verbatim>\<open>catch\<close> branches) are left out.

  \<^verbatim>\<open>draftPlayer\<close> takes the pick number from \<^verbatim>\<open>picks.length + 1\<close>, where
  \<^verbatim>\<open>picks\<close> is the list the page has loaded, both for the turn check and for the
  row it inserts.
\<close>

definition draftPlayer ::
  "table_constraint \<Rightarrow> client \<Rightarrow> database \<Rightarrow> Player \<Rightarrow> error + client \<times> database" where
  "draftPlayer chk c db pl =
     (case (room c, coach c) of
        (Some r, Some me) \<Rightarrow>
          if draft_order r = [] then Inl InvalidConfiguration
          else if getCoachIdForPick (int (length (picks c)) + 1) (draft_order r)
                    \<noteq> Some (coach_ident me)
          then Inl OutOfTurn
          else if nfl_team pl \<in> myTeamsUsed c then Inl TeamConflict
          else if player_ident pl \<in> draftedPlayerIds c then Inl AlreadyDrafted
          else
            (case insert_pick chk db (room_ident r) (coach_ident me)
                    (int (length (picks c)) + 1) (player_ident pl) of
               Inl msg \<Rightarrow> Inl (DbError msg)
             | Inr db' \<Rightarrow> Inr (c\<lparr>picks := loadPicks db' (room_ident r)\<rparr>, db'))
      | _ \<Rightarrow> Inl NotLoaded)"

text \<open>\<open>ok\<close> is the answer to the dialog "Undo the most recent pick for this room?".\<close>

definition undoLastPick :: "client \<Rightarrow> bool \<Rightarrow> database \<Rightarrow> error + client \<times> database" where
  "undoLastPick c ok db =
     (case room c of
        None \<Rightarrow> Inl NotLoaded
      | Some r \<Rightarrow>
          if room_ident r = [] then Inl NotLoaded
          else if \<not> isCommissioner c then Inl Forbidden
          else if \<not> ok then Inl Declined
          else
            (case latest_pick (ledger db (room_ident r)) of
               None \<Rightarrow> Inl EmptyLedger
             | Some l \<Rightarrow>
                 (let db' = delete_pick db (pick_ident l)
                  in Inr (c\<lparr>picks := loadPicks db' (room_ident r)\<rparr>, db'))))"

section \<open>Sequences of actions\<close>

text \<open>
  An action is issued from a page, with the picks that page has loaded. \<open>run\<close> performs
  actions one after the other on the database, each from the page state given with it
  (a page that has not reloaded since an earlier write is stale), and collects what each
  reports (\<open>None\<close> for a write that went through).
\<close>

datatype action = Draft client Player | Undo client bool

fun perform :: "table_constraint \<Rightarrow> database \<Rightarrow> action \<Rightarrow> error + client \<times> database" where
  "perform chk db (Draft c pl) = draftPlayer chk c db pl"
| "perform chk db (Undo c ok) = undoLastPick c ok db"

fun run :: "table_constraint \<Rightarrow> database \<Rightarrow> action list \<Rightarrow> error option list \<times> database" where
  "run chk db [] = ([], db)"
| "run chk db (a # as) =
     (case perform chk db a of
        Inl e \<Rightarrow> (case run chk db as of (es, d) \<Rightarrow> (Some e # es, d))
      | Inr (c', db') \<Rightarrow> (case run chk db' as of (es, d) \<Rightarrow> (None # es, d)))"

text \<open>
  A page is in sync with the database when it has loaded its room and coach and its
  picks are what \<^verbatim>\<open>loadPicks\<close> would load now.
\<close>

definition in_sync :: "client \<Rightarrow> database \<Rightarrow> bool" where
  "in_sync c db =
     (case room c of
        None \<Rightarrow> False
      | Some r \<Rightarrow> coach c \<noteq> None \<and> picks c = loadPicks db (room_ident r))"

text \<open>
  The databases reached from \<open>db0\<close> by writes that went through, every draft issued from
  a page in sync.
\<close>

inductive synced_run :: "table_constraint \<Rightarrow> database \<Rightarrow> database \<Rightarrow> bool"
  for chk :: table_constraint and db0 :: database where
  start: "synced_run chk db0 db0"
| draft: "synced_run chk db0 db \<Longrightarrow> in_sync c db \<Longrightarrow>
          draftPlayer chk c db pl = Inr (c', db') \<Longrightarrow> synced_run chk db0 db'"
| undo: "synced_run chk db0 db \<Longrightarrow> undoLastPick c ok db = Inr (c', db') \<Longrightarrow>
         synced_run chk db0 db'"

text \<open>
  The same, every draft being for a player that is a row of the table of players (the
  page lists the players it has loaded from that table).
\<close>

inductive listed_run :: "table_constraint \<Rightarrow> database \<Rightarrow> database \<Rightarrow> bool"
  for chk :: table_constraint and db0 :: database where
  start: "listed_run chk db0 db0"
| draft: "listed_run chk db0 db \<Longrightarrow> in_sync c db \<Longrightarrow> pl \<in> set (players_tbl db) \<Longrightarrow>
          draftPlayer chk c db pl = Inr (c', db') \<Longrightarrow> listed_run chk db0 db'"
| undo: "listed_run chk db0 db \<Longrightarrow> undoLastPick c ok db = Inr (c', db') \<Longrightarrow>
         listed_run chk db0 db'"

text \<open>
  The non-empty teams of the players a coach holds in a room, one entry per pick, in
  table order.
\<close>

definition teams_held :: "database \<Rightarrow> string \<Rightarrow> string \<Rightarrow> string list" where
  "teams_held db roomId coachId =
     List.map_filter
       (\<lambda>r. case player_of db (player_id r) of
              None \<Rightarrow> None
            | Some q \<Rightarrow> if nfl_team q \<noteq> [] then Some (nfl_team q) else None)
       (filter (\<lambda>r. coach_id r = coachId) (ledger db roomId))"

text \<open>
  Two conditions on the table of picks: in every room the stored pick numbers are
  \<open>1, 2, ...\<close> in table order; the keys are pairwise different and below the serial
  number.
\<close>

definition numbered :: "database \<Rightarrow> bool" where
  "numbered db = (\<forall>rid. map round' (ledger db rid) = [1..int (length (ledger db rid))])"

definition keys_fresh :: "database \<Rightarrow> bool" where
  "keys_fresh db =
     (distinct (map pick_ident (picks_tbl db)) \<and> (\<forall>r \<in> set (picks_tbl db). pick_ident r < serial db))"

section \<open>A small room to run the page in\<close>

text \<open>
  Two coaches, Rowland (the commissioner) first in the draft order, and seven players;
  two of them have no team.
\<close>

definition ex_room :: Room where
  "ex_room = \<lparr>room_ident = ''r1'', room_name = ''Triple'', draft_order = [''cA'', ''cB'']\<rparr>"

definition ex_coachA :: Coach where
  "ex_coachA = \<lparr>coach_ident = ''cA'', coach_name = ''Rowland''\<rparr>"

definition ex_coachB :: Coach where
  "ex_coachB = \<lparr>coach_ident = ''cB'', coach_name = ''Blake''\<rparr>"

definition ex_player :: "string \<Rightarrow> string \<Rightarrow> string \<Rightarrow> string \<Rightarrow> Player" where
  "ex_player i nm tm pos =
     \<lparr>player_ident = i, player_name = nm, nfl_team = tm, position = pos, ppg = None,
      player_room_id = ''r1''\<rparr>"

abbreviation Mahomes :: Player where "Mahomes \<equiv> ex_player ''p1'' ''Mahomes'' ''KC'' ''QB''"
abbreviation Kelce :: Player where "Kelce \<equiv> ex_player ''p2'' ''Kelce'' ''KC'' ''TE''"
abbreviation Allen :: Player where "Allen \<equiv> ex_player ''p3'' ''Allen'' ''BUF'' ''QB''"
abbreviation Tucker :: Player where "Tucker \<equiv> ex_player ''p4'' ''Tucker'' ''BAL'' ''K''"
abbreviation Gordon :: Player where "Gordon \<equiv> ex_player ''p5'' ''Gordon'' [] ''WR''"
abbreviation Newton :: Player where "Newton \<equiv> ex_player ''p6'' ''Newton'' [] ''QB''"
abbreviation Pacheco :: Player where "Pacheco \<equiv> ex_player ''p7'' ''Pacheco'' ''KC'' ''RB''"

definition ex_players :: "Player list" where
  "ex_players = [Mahomes, Kelce, Allen, Tucker, Gordon, Newton, Pacheco]"

definition ex_db :: "picks_row list \<Rightarrow> database" where
  "ex_db rows =
     \<lparr>players_tbl = ex_players, coaches_tbl = [ex_coachA, ex_coachB],
      picks_tbl = rows, serial = length rows\<rparr>"

definition ex_pick :: "nat \<Rightarrow> string \<Rightarrow> int \<Rightarrow> string \<Rightarrow> picks_row" where
  "ex_pick i cid n pid =
     \<lparr>pick_ident = i, room_id = ''r1'', coach_id = cid, round' = n, player_id = pid,
      created_at = i\<rparr>"

text \<open>The page of a coach who has loaded the room from the database \<open>db\<close>.\<close>

definition ex_page :: "Coach \<Rightarrow> database \<Rightarrow> client" where
  "ex_page me db =
     \<lparr>room = Some ex_room, coach = Some me, players = players_tbl db,
      picks = loadPicks db ''r1'', search = [], posFilter = ''ALL''\<rparr>"

section \<open>Properties of the resolver\<close>

lemma Math_ceil_div_real:
  "Math_ceil_div a n = \<lceil>real_of_int a / real_of_int n\<rceil>"
  by (simp add: Math_ceil_div_def ceiling_divide_eq_div)

lemma js_rem_nonneg: "0 \<le> a \<Longrightarrow> 0 < b \<Longrightarrow> js_rem a b = a mod b"
  by (cases "a = 0") (simp_all add: js_rem_def)

lemma js_rem_2_odd: "0 \<le> r \<Longrightarrow> (js_rem r 2 = 1) = odd r"
  by (simp add: js_rem_nonneg odd_iff_mod_2_eq_one)

lemma getCoachIdForPick_index:
  assumes N: "1 \<le> length order" and p: "1 \<le> p"
  shows "getCoachIdForPick p order = Some (order ! spec_index p (length order))"
    and "spec_index p (length order) < length order"
proof -
  let ?N = "length order"
  let ?n = "int ?N"
  have n: "0 < ?n" using N by (cases order) simp_all
  have round: "Math_ceil_div p ?n = spec_round p ?N"
    by (simp add: Math_ceil_div_real spec_round_def)
  have i0: "js_rem (p - 1) ?n = (p - 1) mod ?n"
    using p n by (simp add: js_rem_nonneg)
  have i0_lo: "0 \<le> (p - 1) mod ?n" and i0_hi: "(p - 1) mod ?n < ?n"
    using n by simp_all
  have i0_nat: "int (spec_indexInRound0 p ?N) = (p - 1) mod ?n"
    using i0_lo by (simp add: spec_indexInRound0_def)
  have lt: "spec_indexInRound0 p ?N < ?N"
    using i0_hi i0_nat by linarith
  have rev: "(spec_round p ?N = 2 \<or> spec_round p ?N = 3 \<or>
              (spec_round p ?N \<ge> 5 \<and> js_rem (spec_round p ?N) 2 = 1))
             = spec_reversed (spec_round p ?N)"
    by (auto simp: spec_reversed_def js_rem_2_odd)
  show "spec_index p ?N < ?N"
    using lt by (auto simp: spec_index_def)
  show "getCoachIdForPick p order = Some (order ! spec_index p ?N)"
  proof (cases "spec_reversed (spec_round p ?N)")
    case True
    have e: "nat (?n - 1 - (p - 1) mod ?n) = ?N - 1 - spec_indexInRound0 p ?N"
      using lt i0_nat by linarith
    have "0 \<le> ?n - 1 - (p - 1) mod ?n" and "?n - 1 - (p - 1) mod ?n < ?n"
      using i0_lo i0_hi by linarith+
    then have "index_or_null order (?n - 1 - (p - 1) mod ?n)
                 = Some (order ! (?N - 1 - spec_indexInRound0 p ?N))"
      by (simp add: index_or_null_def e)
    with True n show ?thesis
      unfolding getCoachIdForPick_def Let_def round i0 rev spec_index_def by simp
  next
    case False
    have "index_or_null order ((p - 1) mod ?n) = Some (order ! spec_indexInRound0 p ?N)"
      using i0_lo i0_hi by (simp add: index_or_null_def spec_indexInRound0_def)
    with False n show ?thesis
      unfolding getCoachIdForPick_def Let_def round i0 rev spec_index_def by simp
  qed
qed

lemma getCoachIdForPick_four:
  "map (\<lambda>p. getCoachIdForPick p [A, B, C, D]) [1..20]
     = map Some [A, B, C, D,  D, C, B, A,  D, C, B, A,  A, B, C, D,  D, C, B, A]"
  by (simp add: upto_rec1 getCoachIdForPick_def Math_ceil_div_def js_rem_def index_or_null_def)

text \<open>
  Claim C1. For a draft order of length \<open>N \<ge> 1\<close> and an overall pick number
  \<open>p \<ge> 1\<close>, \<open>getCoachIdForPick\<close> returns the entry of the order at the index the
  specification computes: round \<open>ceil(p / N)\<close>, position \<open>(p - 1) mod N\<close> in the round,
  counted from the end exactly in rounds 2 and 3 and in the odd rounds from 5 on. For the
  order \<open>[A, B, C, D]\<close> the picks 1 to 20 go to A,B,C,D, D,C,B,A, D,C,B,A, A,B,C,D,
  D,C,B,A.
\<close>

theorem getCoachIdForPick_resolves:
  "(1 \<le> length order \<and> 1 \<le> p \<longrightarrow>
      getCoachIdForPick p order = Some (order ! spec_index p (length order))
      \<and> spec_index p (length order) < length order)
   \<and> map (\<lambda>p. getCoachIdForPick p [A, B, C, D]) [1..20]
       = map Some [A, B, C, D,  D, C, B, A,  D, C, B, A,  A, B, C, D,  D, C, B, A]"
  using getCoachIdForPick_index [of order p] getCoachIdForPick_four [of A B C D]
  by blast

theorem getCoachIdForPick_resolves_witness:
  "1 \<le> length [''a'', ''b'', ''c''] \<and> (1::int) \<le> 8
   \<and> spec_index 8 (length [''a'', ''b'', ''c'']) = 1
   \<and> getCoachIdForPick 8 [''a'', ''b'', ''c''] = Some ''b''"
  using getCoachIdForPick_resolves [of "[''a'', ''b'', ''c'']" 8 "''A''" "''B''" "''C''" "''D''"]
  by (simp add: spec_index_def spec_round_def spec_reversed_def spec_indexInRound0_def)

section \<open>Loading, inserting and deleting picks\<close>

lemma joined_fields [simp]:
  "pick_ident (joined db r) = pick_ident r"
  "room_id (joined db r) = room_id r"
  "coach_id (joined db r) = coach_id r"
  "round' (joined db r) = round' r"
  "player_id (joined db r) = player_id r"
  "created_at (joined db r) = created_at r"
  "player (joined db r) = player_of db (player_id r)"
  "coach' (joined db r) = coach_of db (coach_id r)"
  by (simp_all add: joined_def)

lemma length_loadPicks [simp]: "length (loadPicks db rid) = length (ledger db rid)"
  by (simp add: loadPicks_def)

lemma player_id_loadPicks:
  "player_id ` set (loadPicks db rid) = player_id ` set (ledger db rid)"
  by (simp add: loadPicks_def image_image)

lemma loadPicks_numbered:
  assumes "map round' (ledger db rid) = [1..int (length (ledger db rid))]"
  shows "loadPicks db rid = map (joined db) (ledger db rid)"
proof -
  have "map round' (map (joined db) (ledger db rid)) = map round' (ledger db rid)"
    by simp
  with assms have "sorted (map round' (map (joined db) (ledger db rid)))"
    by (simp only: sorted_upto)
  then show ?thesis
    unfolding loadPicks_def by (rule sort_key_id_if_sorted)
qed

lemma latest_pick_None [simp]: "(latest_pick xs = None) = (xs = [])"
  by (induction xs) (auto split: option.splits)

lemma latest_pick_max:
  "latest_pick xs = Some l \<Longrightarrow> l \<in> set xs \<and> (\<forall>r \<in> set xs. round' r \<le> round' l)"
proof (induction xs arbitrary: l)
  case Nil
  then show ?case by simp
next
  case (Cons x xs)
  show ?case
  proof (cases "latest_pick xs")
    case None
    with Cons.prems show ?thesis by simp
  next
    case (Some y)
    with Cons.IH have "y \<in> set xs" "\<forall>r \<in> set xs. round' r \<le> round' y" by auto
    with Cons.prems Some show ?thesis
      by (auto split: if_splits)
  qed
qed

lemma latest_pick_last:
  "sorted_wrt (<) (map round' xs) \<Longrightarrow> xs \<noteq> [] \<Longrightarrow> latest_pick xs = Some (last xs)"
proof (induction xs)
  case Nil
  then show ?case by simp
next
  case (Cons x xs)
  show ?case
  proof (cases "xs = []")
    case True
    then show ?thesis by simp
  next
    case False
    with Cons have l: "latest_pick xs = Some (last xs)" by simp
    from False have "last xs \<in> set xs" by simp
    with Cons.prems(1) have "round' x < round' (last xs)" by auto
    with l False show ?thesis by simp
  qed
qed

lemma filter_last_key:
  assumes "distinct (map f xs)" "xs \<noteq> []"
  shows "filter (\<lambda>r. f r \<noteq> f (last xs)) xs = butlast xs"
proof -
  from assms(2) have xs: "xs = butlast xs @ [last xs]" by simp
  with assms(1) have "distinct (map f (butlast xs) @ [f (last xs)])"
    by (metis list.simps(8,9) map_append)
  then have "f (last xs) \<notin> f ` set (butlast xs)" by simp
  then have "\<forall>r \<in> set (butlast xs). f r \<noteq> f (last xs)" by (metis imageI)
  then have "filter (\<lambda>r. f r \<noteq> f (last xs)) (butlast xs) = butlast xs"
    by (simp add: filter_id_conv)
  then have "filter (\<lambda>r. f r \<noteq> f (last xs)) (butlast xs @ [last xs]) = butlast xs"
    by simp
  with xs show ?thesis by simp
qed



lemma draftPlayer_Inr:
  assumes "draftPlayer chk c db pl = Inr (c', db')"
  obtains r me where "room c = Some r" "coach c = Some me" "draft_order r \<noteq> []"
    "getCoachIdForPick (int (length (picks c)) + 1) (draft_order r) = Some (coach_ident me)"
    "nfl_team pl \<notin> myTeamsUsed c" "player_ident pl \<notin> draftedPlayerIds c"
    "chk (picks_tbl db)
       \<lparr>pick_ident = serial db, room_id = room_ident r, coach_id = coach_ident me,
        round' = int (length (picks c)) + 1, player_id = player_ident pl,
        created_at = serial db\<rparr> = None"
    "db' = db\<lparr>picks_tbl := picks_tbl db @
             [\<lparr>pick_ident = serial db, room_id = room_ident r, coach_id = coach_ident me,
               round' = int (length (picks c)) + 1, player_id = player_ident pl,
               created_at = serial db\<rparr>],
            serial := Suc (serial db)\<rparr>"
    "c' = c\<lparr>picks := loadPicks db' (room_ident r)\<rparr>"
  using assms
  by (auto simp: draftPlayer_def insert_pick_def Let_def
           split: option.splits if_splits sum.splits)

lemma undoLastPick_Inr:
  assumes "undoLastPick c ok db = Inr (c', db')"
  obtains r l where "room c = Some r" "room_ident r \<noteq> []" "isCommissioner c" "ok"
    "latest_pick (ledger db (room_ident r)) = Some l"
    "db' = delete_pick db (pick_ident l)"
    "c' = c\<lparr>picks := loadPicks db' (room_ident r)\<rparr>"
  using assms
  by (auto simp: undoLastPick_def Let_def split: option.splits if_splits)

lemma ledger_insert:
  "ledger (db\<lparr>picks_tbl := picks_tbl db @ [new], serial := k\<rparr>) rid
     = (if room_id new = rid then ledger db rid @ [new] else ledger db rid)"
  by (simp add: ledger_def)

lemma ledger_delete:
  "ledger (delete_pick db i) rid = filter (\<lambda>x. pick_ident x \<noteq> i) (ledger db rid)"
  by (auto simp: ledger_def delete_pick_def intro: filter_cong)

lemma delete_last_of_room:
  assumes keys: "distinct (map pick_ident (picks_tbl db))" and ne: "ledger db rid0 \<noteq> []"
  shows "ledger (delete_pick db (pick_ident (last (ledger db rid0)))) rid
           = (if rid = rid0 then butlast (ledger db rid) else ledger db rid)"
proof (cases "rid = rid0")
  case True
  from keys have "distinct (map pick_ident (ledger db rid0))"
    by (simp add: ledger_def distinct_map_filter)
  with ne True show ?thesis
    by (simp add: ledger_delete filter_last_key)
next
  case False
  let ?l = "last (ledger db rid0)"
  from ne have "?l \<in> set (ledger db rid0)" by simp
  then have l: "?l \<in> set (picks_tbl db)" "room_id ?l = rid0"
    by (simp_all add: ledger_def)
  have "\<forall>x \<in> set (ledger db rid). pick_ident x \<noteq> pick_ident ?l"
  proof
    fix x assume "x \<in> set (ledger db rid)"
    then have x: "x \<in> set (picks_tbl db)" "room_id x = rid" by (simp_all add: ledger_def)
    with l False have "x \<noteq> ?l" by auto
    with keys x(1) l(1) show "pick_ident x \<noteq> pick_ident ?l"
      by (auto simp: distinct_map inj_on_def)
  qed
  with False show ?thesis
    by (simp add: ledger_delete filter_id_conv)
qed

lemma butlast_upto_length:
  "xs \<noteq> [] \<Longrightarrow> butlast [1..int (length xs)] = [1..int (length (butlast xs))]"
proof -
  assume "xs \<noteq> []"
  then have n: "1 \<le> int (length xs)" by (cases xs) simp_all
  then have "[1..int (length xs)] = [1..int (length xs) - 1] @ [int (length xs)]"
    by (rule upto_rec2)
  moreover from \<open>xs \<noteq> []\<close> have "int (length (butlast xs)) = int (length xs) - 1"
    by (cases xs) simp_all
  ultimately show ?thesis by simp
qed

lemma numbered_sync:
  "numbered db \<Longrightarrow> loadPicks db rid = map (joined db) (ledger db rid)"
  by (simp add: numbered_def loadPicks_numbered)

lemma numbered_latest:
  assumes "numbered db" "latest_pick (ledger db rid) = Some l"
  shows "ledger db rid \<noteq> [] \<and> l = last (ledger db rid)"
proof -
  from assms(2) have ne: "ledger db rid \<noteq> []" by auto
  from assms(1) have "sorted_wrt (<) (map round' (ledger db rid))"
    by (simp add: numbered_def)
  then have "latest_pick (ledger db rid) = Some (last (ledger db rid))"
    using ne by (rule latest_pick_last)
  with assms(2) ne show ?thesis by simp
qed


lemma coach_of_ident: "coach_of db cid = Some k \<Longrightarrow> coach_ident k = cid"
  by (auto simp: coach_of_def find_Some_iff)

lemma mine_joined:
  "(case coach' (joined db r) of
      Some k \<Rightarrow> if coach_ident k \<noteq> [] then coach_ident k = m else coach_id (joined db r) = m
    | None \<Rightarrow> coach_id (joined db r) = m) = (coach_id r = m)"
  by (auto split: option.splits dest: coach_of_ident)

lemma set_map_filter_Some:
  "set (List.map_filter g xs) = {t. \<exists>x \<in> set xs. g x = Some t}"
  by (induction xs) (auto simp: map_filter_simps split: option.splits)

lemma myTeamsUsed_sync:
  assumes "numbered db" "in_sync c db" "room c = Some r" "coach c = Some me"
  shows "myTeamsUsed c = set (teams_held db (room_ident r) (coach_ident me))"
proof -
  let ?L = "ledger db (room_ident r)"
  let ?g = "\<lambda>p. case p of None \<Rightarrow> None
                 | Some q \<Rightarrow> if nfl_team q \<noteq> [] then Some (nfl_team q) else None"
  from assms have p: "picks c = map (joined db) ?L"
    by (simp add: in_sync_def numbered_sync)
  have "filter (\<lambda>p. case coach' p of
                      Some k \<Rightarrow> if coach_ident k \<noteq> [] then coach_ident k = coach_ident me
                                else coach_id p = coach_ident me
                    | None \<Rightarrow> coach_id p = coach_ident me) (map (joined db) ?L)
          = map (joined db) (filter (\<lambda>r. coach_id r = coach_ident me) ?L)"
    unfolding filter_map comp_def mine_joined ..
  then have mine: "myPicks c
     = sort_key round' (map (joined db) (filter (\<lambda>r. coach_id r = coach_ident me) ?L))"
    using assms(4) by (simp only: myPicks_def p option.case)
  show ?thesis
    unfolding myTeamsUsed_def teams_held_def mine set_map_filter_Some
    by auto
qed

lemma draft_step:
  assumes num: "numbered db" and sync: "in_sync c db"
    and d: "draftPlayer chk c db pl = Inr (c', db')"
  obtains r me new where "room c = Some r" "coach c = Some me"
    "room_id new = room_ident r" "coach_id new = coach_ident me"
    "player_id new = player_ident pl" "pick_ident new = serial db"
    "round' new = int (length (ledger db (room_ident r))) + 1"
    "picks_tbl db' = picks_tbl db @ [new]" "serial db' = Suc (serial db)"
    "players_tbl db' = players_tbl db"
    "\<forall>rid. ledger db' rid = (if rid = room_ident r then ledger db rid @ [new] else ledger db rid)"
    "player_ident pl \<notin> player_id ` set (ledger db (room_ident r))"
    "nfl_team pl \<notin> set (teams_held db (room_ident r) (coach_ident me))"
proof -
  from d obtain r me where f: "room c = Some r" "coach c = Some me"
    "nfl_team pl \<notin> myTeamsUsed c" "player_ident pl \<notin> draftedPlayerIds c"
    "db' = db\<lparr>picks_tbl := picks_tbl db @
             [\<lparr>pick_ident = serial db, room_id = room_ident r, coach_id = coach_ident me,
               round' = int (length (picks c)) + 1, player_id = player_ident pl,
               created_at = serial db\<rparr>],
            serial := Suc (serial db)\<rparr>"
    by (rule draftPlayer_Inr)
  let ?new = "\<lparr>pick_ident = serial db, room_id = room_ident r, coach_id = coach_ident me,
               round' = int (length (picks c)) + 1, player_id = player_ident pl,
               created_at = serial db\<rparr>"
  from sync f(1) have p: "picks c = loadPicks db (room_ident r)"
    by (simp add: in_sync_def)
  show thesis
  proof (rule that [of r me ?new])
    show "round' ?new = int (length (ledger db (room_ident r))) + 1" by (simp add: p)
    show "\<forall>rid. ledger db' rid
            = (if rid = room_ident r then ledger db rid @ [?new] else ledger db rid)"
      unfolding f(5) ledger_insert by auto
    show "player_ident pl \<notin> player_id ` set (ledger db (room_ident r))"
      using f(4) player_id_loadPicks [of db "room_ident r"]
      by (simp add: draftedPlayerIds_def p)
    show "nfl_team pl \<notin> set (teams_held db (room_ident r) (coach_ident me))"
      using f(3) myTeamsUsed_sync [OF num sync f(1,2)] by simp
  qed (simp_all add: f)
qed

lemma undo_step:
  assumes keys: "keys_fresh db" and num: "numbered db"
    and u: "undoLastPick c ok db = Inr (c', db')"
  obtains r where "room c = Some r" "ledger db (room_ident r) \<noteq> []"
    "picks_tbl db' = filter (\<lambda>x. pick_ident x \<noteq> pick_ident (last (ledger db (room_ident r))))
                       (picks_tbl db)"
    "serial db' = serial db" "players_tbl db' = players_tbl db"
    "\<forall>rid. ledger db' rid = (if rid = room_ident r then butlast (ledger db rid) else ledger db rid)"
proof -
  from u obtain r l where f: "room c = Some r"
    "latest_pick (ledger db (room_ident r)) = Some l" "db' = delete_pick db (pick_ident l)"
    by (rule undoLastPick_Inr)
  from numbered_latest [OF num f(2)]
  have l: "ledger db (room_ident r) \<noteq> []" "l = last (ledger db (room_ident r))" by simp_all
  from keys have k: "distinct (map pick_ident (picks_tbl db))" by (simp add: keys_fresh_def)
  show thesis
  proof (rule that [of r])
    show "\<forall>rid. ledger db' rid
            = (if rid = room_ident r then butlast (ledger db rid) else ledger db rid)"
      unfolding f(3) l(2) using delete_last_of_room [OF k l(1)] by blast
  qed (simp_all add: f l delete_pick_def)
qed

lemma draft_keeps_numbered:
  assumes "keys_fresh db" "numbered db" "in_sync c db" "draftPlayer chk c db pl = Inr (c', db')"
  shows "keys_fresh db' \<and> numbered db'"
proof -
  from assms(2-4) obtain r me new where "room c = Some r" "coach c = Some me"
    "room_id new = room_ident r" "coach_id new = coach_ident me"
    "player_id new = player_ident pl" and s: "pick_ident new = serial db"
    "round' new = int (length (ledger db (room_ident r))) + 1"
    "picks_tbl db' = picks_tbl db @ [new]" "serial db' = Suc (serial db)"
    "players_tbl db' = players_tbl db"
    "\<forall>rid. ledger db' rid = (if rid = room_ident r then ledger db rid @ [new] else ledger db rid)"
    "player_ident pl \<notin> player_id ` set (ledger db (room_ident r))"
    "nfl_team pl \<notin> set (teams_held db (room_ident r) (coach_ident me))"
    by (rule draft_step)
  have "keys_fresh db'"
    using assms(1) by (auto simp: keys_fresh_def s less_Suc_eq)
  moreover have "numbered db'"
    using assms(2) by (auto simp: numbered_def s upto_rec2)
  ultimately show ?thesis ..
qed

lemma undo_keeps_numbered:
  assumes "keys_fresh db" "numbered db" "undoLastPick c ok db = Inr (c', db')"
  shows "keys_fresh db' \<and> numbered db'"
proof -
  from assms obtain r where "room c = Some r" and s: "ledger db (room_ident r) \<noteq> []"
    "picks_tbl db' = filter (\<lambda>x. pick_ident x \<noteq> pick_ident (last (ledger db (room_ident r))))
                       (picks_tbl db)"
    "serial db' = serial db" "players_tbl db' = players_tbl db"
    "\<forall>rid. ledger db' rid = (if rid = room_ident r then butlast (ledger db rid) else ledger db rid)"
    by (rule undo_step)
  have "keys_fresh db'"
    using assms(1) by (simp add: keys_fresh_def s distinct_map_filter)
  moreover have "numbered db'"
    unfolding numbered_def
  proof
    fix rid
    from assms(2) have n: "map round' (ledger db rid) = [1..int (length (ledger db rid))]"
      by (simp add: numbered_def)
    show "map round' (ledger db' rid) = [1..int (length (ledger db' rid))]"
    proof (cases "rid = room_ident r")
      case True
      with s(1) have "butlast [1..int (length (ledger db rid))]
                       = [1..int (length (butlast (ledger db rid)))]"
        by (simp add: butlast_upto_length)
      with True n show ?thesis
        by (simp add: s(5) map_butlast)
    next
      case False
      with n show ?thesis by (simp add: s(5))
    qed
  qed
  ultimately show ?thesis ..
qed

lemma synced_run_numbered:
  assumes "synced_run chk db0 db" "picks_tbl db0 = []"
  shows "keys_fresh db \<and> numbered db"
  using assms
proof (induction rule: synced_run.induct)
  case start
  then show ?case by (simp add: keys_fresh_def numbered_def ledger_def)
next
  case (draft db c pl c' db')
  then show ?case using draft_keeps_numbered by blast
next
  case (undo db c ok c' db')
  then show ?case using undo_keeps_numbered by blast
qed






lemma listed_run_synced: "listed_run chk db0 db \<Longrightarrow> synced_run chk db0 db"
  by (induction rule: listed_run.induct) (auto intro: synced_run.intros)


lemma delete_by_key:
  "distinct (map f xs) \<Longrightarrow> l \<in> set xs \<Longrightarrow> filter (\<lambda>x. f x \<noteq> f l) xs = remove1 l xs"
proof (induction xs)
  case Nil
  then show ?case by simp
next
  case (Cons a xs)
  show ?case
  proof (cases "a = l")
    case True
    with Cons.prems have "f l \<notin> f ` set xs" by simp
    then have "\<forall>x \<in> set xs. f x \<noteq> f l" by (metis imageI)
    with True show ?thesis by (simp add: filter_id_conv)
  next
    case False
    with Cons show ?thesis by force
  qed
qed



text \<open>Two drafts in the small room, each from a page in sync.\<close>

lemma ex_listed_run:
  "listed_run unconstrained (ex_db [])
     (ex_db [ex_pick 0 ''cA'' 1 ''p1'', ex_pick 1 ''cB'' 2 ''p3''])"
proof -
  let ?d0 = "ex_db []"
  let ?d1 = "ex_db [ex_pick 0 ''cA'' 1 ''p1'']"
  let ?d2 = "ex_db [ex_pick 0 ''cA'' 1 ''p1'', ex_pick 1 ''cB'' 2 ''p3'']"
  have s0: "listed_run unconstrained ?d0 ?d0" by (rule listed_run.start)
  have a: "in_sync (ex_page ex_coachA ?d0) ?d0" "Mahomes \<in> set (players_tbl ?d0)"
    "draftPlayer unconstrained (ex_page ex_coachA ?d0) ?d0 Mahomes
       = Inr (ex_page ex_coachA ?d1, ?d1)"
    by code_simp+
  from s0 a have s1: "listed_run unconstrained ?d0 ?d1" by (rule listed_run.draft)
  have b: "in_sync (ex_page ex_coachB ?d1) ?d1" "Allen \<in> set (players_tbl ?d1)"
    "draftPlayer unconstrained (ex_page ex_coachB ?d1) ?d1 Allen
       = Inr (ex_page ex_coachB ?d2, ?d2)"
    by code_simp+
  from s1 b show ?thesis by (rule listed_run.draft)
qed

lemma ex_synced_run:
  "synced_run unconstrained (ex_db [])
     (ex_db [ex_pick 0 ''cA'' 1 ''p1'', ex_pick 1 ''cB'' 2 ''p3''])"
  using ex_listed_run by (rule listed_run_synced)


section \<open>Submissions that race\<close>

lemma run_append:
  "run chk db (as @ bs)
     = (case run chk db as of (es, d) \<Rightarrow> case run chk d bs of (fs, d') \<Rightarrow> (es @ fs, d'))"
  by (induction as arbitrary: db) (auto split: sum.splits prod.splits)

lemma draftPlayer_off_turn:
  assumes "room c = Some r" "coach c = Some me" "draft_order r \<noteq> []"
    "getCoachIdForPick (int (length (picks c)) + 1) (draft_order r) \<noteq> Some (coach_ident me)"
  shows "draftPlayer chk c db pl = Inl OutOfTurn"
  using assms by (simp add: draftPlayer_def)

lemma run_all_off_turn:
  assumes "\<forall>(c, pl) \<in> set subs. room c = Some r \<and> picks c = ps \<and> coach c \<noteq> None \<and>
             map_option coach_ident (coach c)
               \<noteq> getCoachIdForPick (int (length ps) + 1) (draft_order r)"
    and "draft_order r \<noteq> []"
  shows "run chk db (map (\<lambda>(c, pl). Draft c pl) subs)
           = (replicate (length subs) (Some OutOfTurn), db)"
  using assms(1)
proof (induction subs)
  case Nil
  then show ?case by simp
next
  case (Cons s subs)
  obtain c pl where s: "s = (c, pl)" by (cases s)
  with Cons.prems obtain me where c: "room c = Some r" "coach c = Some me" "picks c = ps"
    "getCoachIdForPick (int (length ps) + 1) (draft_order r) \<noteq> Some (coach_ident me)"
    by (cases "coach c") auto
  with assms(2) have "draftPlayer chk c db pl = Inl OutOfTurn"
    by (simp add: draftPlayer_off_turn)
  with Cons s show ?case by simp
qed

lemma race_split:
  assumes good: "\<forall>(c, pl) \<in> set subs. room c = Some r \<and> picks c = ps \<and> coach c \<noteq> None"
    and order: "draft_order r \<noteq> []"
    and diff: "distinct (map (\<lambda>(c, pl). map_option coach_ident (coach c)) subs)"
    and s: "(c, pl) \<in> set subs"
    and turn: "map_option coach_ident (coach c)
                 = getCoachIdForPick (int (length ps) + 1) (draft_order r)"
  obtains pre post where "subs = pre @ (c, pl) # post"
    "\<forall>db. run chk db (map (\<lambda>(c, pl). Draft c pl) pre)
             = (replicate (length pre) (Some OutOfTurn), db)"
    "\<forall>db. run chk db (map (\<lambda>(c, pl). Draft c pl) post)
             = (replicate (length post) (Some OutOfTurn), db)"
proof -
  let ?f = "\<lambda>(c, pl). map_option coach_ident (coach c)"
  from s obtain pre post where sp: "subs = pre @ (c, pl) # post"
    by (auto dest: split_list)
  with diff have "?f (c, pl) \<notin> ?f ` set pre" "?f (c, pl) \<notin> ?f ` set post"
    by auto
  with turn have off: "\<forall>t \<in> set pre \<union> set post.
      ?f t \<noteq> getCoachIdForPick (int (length ps) + 1) (draft_order r)"
    by (metis (no_types, lifting) Un_iff case_prod_conv imageI)
  have "\<forall>(c, pl) \<in> set pre. room c = Some r \<and> picks c = ps \<and> coach c \<noteq> None \<and>
             map_option coach_ident (coach c)
               \<noteq> getCoachIdForPick (int (length ps) + 1) (draft_order r)"
    using good off unfolding sp case_prod_beta by simp
  then have a: "\<forall>db. run chk db (map (\<lambda>(c, pl). Draft c pl) pre)
             = (replicate (length pre) (Some OutOfTurn), db)"
    using order run_all_off_turn by blast
  have "\<forall>(c, pl) \<in> set post. room c = Some r \<and> picks c = ps \<and> coach c \<noteq> None \<and>
             map_option coach_ident (coach c)
               \<noteq> getCoachIdForPick (int (length ps) + 1) (draft_order r)"
    using good off unfolding sp case_prod_beta by simp
  then have b: "\<forall>db. run chk db (map (\<lambda>(c, pl). Draft c pl) post)
             = (replicate (length post) (Some OutOfTurn), db)"
    using order run_all_off_turn by blast
  from sp a b show thesis by (rule that)
qed

lemma race_at_most_one:
  assumes good: "\<forall>(c, pl) \<in> set subs. room c = Some r \<and> picks c = ps \<and> coach c \<noteq> None"
    and order: "draft_order r \<noteq> []"
    and diff: "distinct (map (\<lambda>(c, pl). map_option coach_ident (coach c)) subs)"
  shows "length (filter (\<lambda>e. e \<noteq> Some OutOfTurn)
           (fst (run chk db (map (\<lambda>(c, pl). Draft c pl) subs)))) \<le> 1"
proof (cases "\<exists>(c, pl) \<in> set subs. map_option coach_ident (coach c)
                 = getCoachIdForPick (int (length ps) + 1) (draft_order r)")
  case False
  with good have "\<forall>(c, pl) \<in> set subs. room c = Some r \<and> picks c = ps \<and> coach c \<noteq> None \<and>
             map_option coach_ident (coach c)
               \<noteq> getCoachIdForPick (int (length ps) + 1) (draft_order r)"
    by auto
  from run_all_off_turn [OF this order] show ?thesis by simp
next
  case True
  then obtain c pl where s: "(c, pl) \<in> set subs"
    "map_option coach_ident (coach c) = getCoachIdForPick (int (length ps) + 1) (draft_order r)"
    by auto
  from good order diff s obtain pre post where sp: "subs = pre @ (c, pl) # post"
    "\<forall>db. run chk db (map (\<lambda>(c, pl). Draft c pl) pre)
             = (replicate (length pre) (Some OutOfTurn), db)"
    "\<forall>db. run chk db (map (\<lambda>(c, pl). Draft c pl) post)
             = (replicate (length post) (Some OutOfTurn), db)"
    by (rule race_split)
  show ?thesis
    unfolding sp(1) by (simp add: run_append sp(2,3) split: sum.splits prod.splits)
qed

lemma race_winner:
  assumes good: "\<forall>(c, pl) \<in> set subs. room c = Some r \<and> picks c = ps \<and> coach c \<noteq> None"
    and order: "draft_order r \<noteq> []"
    and diff: "distinct (map (\<lambda>(c, pl). map_option coach_ident (coach c)) subs)"
    and s: "(c, pl) \<in> set subs" and win: "draftPlayer chk c db pl = Inr (c', db')"
  shows "length (filter (\<lambda>e. e = None) (fst (run chk db (map (\<lambda>(c, pl). Draft c pl) subs)))) = 1
       \<and> length (filter (\<lambda>e. e = Some OutOfTurn)
            (fst (run chk db (map (\<lambda>(c, pl). Draft c pl) subs)))) = length subs - 1
       \<and> snd (run chk db (map (\<lambda>(c, pl). Draft c pl) subs)) = db'"
proof -
  from good s have c: "room c = Some r" "picks c = ps" by auto
  from win obtain r' me where "room c = Some r'" "coach c = Some me"
    "getCoachIdForPick (int (length (picks c)) + 1) (draft_order r') = Some (coach_ident me)"
    by (rule draftPlayer_Inr)
  with c have turn: "map_option coach_ident (coach c)
                 = getCoachIdForPick (int (length ps) + 1) (draft_order r)"
    by simp
  from good order diff s turn obtain pre post where sp: "subs = pre @ (c, pl) # post"
    "\<forall>db. run chk db (map (\<lambda>(c, pl). Draft c pl) pre)
             = (replicate (length pre) (Some OutOfTurn), db)"
    "\<forall>db. run chk db (map (\<lambda>(c, pl). Draft c pl) post)
             = (replicate (length post) (Some OutOfTurn), db)"
    by (rule race_split)
  show ?thesis
    unfolding sp(1) by (simp add: run_append sp(2,3) win)
qed

lemma run_Cons_fst:
  "fst (run chk db (a # as))
     = (case perform chk db a of
          Inl e \<Rightarrow> Some e # fst (run chk db as)
        | Inr x \<Rightarrow> None # fst (run chk (snd x) as))"
  by (simp add: case_prod_beta split: sum.splits)

lemma run_Cons_snd:
  "snd (run chk db (a # as))
     = (case perform chk db a of
          Inl e \<Rightarrow> snd (run chk db as)
        | Inr x \<Rightarrow> snd (run chk (snd x) as))"
  by (simp add: case_prod_beta split: sum.splits)

lemma run_no_write:
  "None \<notin> set (fst (run chk db as)) \<Longrightarrow> snd (run chk db as) = db"
  by (induction as arbitrary: db) (simp_all add: case_prod_beta split: sum.splits)

lemma draftPlayer_OutOfTurn_iff:
  assumes "room c = Some r" "coach c \<noteq> None" "draft_order r \<noteq> []"
  shows "(draftPlayer chk c db pl = Inl OutOfTurn)
           = (map_option coach_ident (coach c)
                \<noteq> getCoachIdForPick (int (length (picks c)) + 1) (draft_order r))"
  using assms by (auto simp: draftPlayer_def split: sum.splits if_splits)

lemma run_out_of_turn_map:
  assumes "\<forall>(c, pl) \<in> set subs. room c = Some r \<and> picks c = ps \<and> coach c \<noteq> None"
    and "draft_order r \<noteq> []"
  shows "map (\<lambda>e. e = Some OutOfTurn) (fst (run chk db (map (\<lambda>(c, pl). Draft c pl) subs)))
           = map (\<lambda>(c, pl). map_option coach_ident (coach c)
                    \<noteq> getCoachIdForPick (int (length ps) + 1) (draft_order r)) subs"
  using assms(1)
proof (induction subs arbitrary: db)
  case Nil
  then show ?case by simp
next
  case (Cons s subs)
  obtain c pl where s: "s = (c, pl)" by (cases s)
  with Cons.prems have c: "room c = Some r" "picks c = ps" "coach c \<noteq> None" by auto
  from Cons.prems have rest: "\<forall>(c, pl) \<in> set subs. room c = Some r \<and> picks c = ps \<and> coach c \<noteq> None"
    by simp
  have head: "(draftPlayer chk c db pl = Inl OutOfTurn)
           = (map_option coach_ident (coach c)
                \<noteq> getCoachIdForPick (int (length ps) + 1) (draft_order r))"
    using draftPlayer_OutOfTurn_iff [OF c(1,3) assms(2), of chk db pl] c(2) by simp
  show ?case
  proof (cases "draftPlayer chk c db pl")
    case (Inl e)
    with head Cons.IH [OF rest, of db] show ?thesis
      by (simp add: s run_Cons_fst run_Cons_snd del: run.simps)
  next
    case (Inr x)
    obtain c' db' where x: "x = (c', db')" by (cases x)
    with Inr head Cons.IH [OF rest, of db'] show ?thesis
      by (simp add: s run_Cons_fst run_Cons_snd del: run.simps)
  qed
qed

lemma draftPlayer_commits:
  assumes "room c = Some r" "coach c = Some me" "draft_order r \<noteq> []"
    "getCoachIdForPick (int (length (picks c)) + 1) (draft_order r) = Some (coach_ident me)"
    "nfl_team pl \<notin> myTeamsUsed c" "player_ident pl \<notin> draftedPlayerIds c"
  shows "draftPlayer chk c db pl
    = (case chk (picks_tbl db)
              \<lparr>pick_ident = serial db, room_id = room_ident r, coach_id = coach_ident me,
               round' = int (length (picks c)) + 1, player_id = player_ident pl,
               created_at = serial db\<rparr> of
         Some msg \<Rightarrow> Inl (DbError msg)
       | None \<Rightarrow>
           Inr (c\<lparr>picks := loadPicks
                   (db\<lparr>picks_tbl := picks_tbl db @
                         [\<lparr>pick_ident = serial db, room_id = room_ident r,
                           coach_id = coach_ident me, round' = int (length (picks c)) + 1,
                           player_id = player_ident pl, created_at = serial db\<rparr>],
                       serial := Suc (serial db)\<rparr>) (room_ident r)\<rparr>,
                db\<lparr>picks_tbl := picks_tbl db @
                      [\<lparr>pick_ident = serial db, room_id = room_ident r,
                        coach_id = coach_ident me, round' = int (length (picks c)) + 1,
                        player_id = player_ident pl, created_at = serial db\<rparr>],
                    serial := Suc (serial db)\<rparr>))"
  using assms by (simp add: draftPlayer_def insert_pick_def Let_def split: option.splits)

lemma race_same_coach:
  assumes "\<forall>(c, pl) \<in> set subs. room c = Some r \<and> picks c = ps \<and> coach c \<noteq> None \<and>
             map_option coach_ident (coach c)
               = getCoachIdForPick (int (length ps) + 1) (draft_order r) \<and>
             nfl_team pl \<notin> myTeamsUsed c \<and> player_ident pl \<notin> draftedPlayerIds c"
    and "draft_order r \<noteq> []"
  shows "(\<forall>e \<in> set (fst (run chk db (map (\<lambda>(c, pl). Draft c pl) subs))).
            e = None \<or> (\<exists>msg. e = Some (DbError msg)))
       \<and> (\<exists>news. picks_tbl (snd (run chk db (map (\<lambda>(c, pl). Draft c pl) subs)))
                    = picks_tbl db @ news
             \<and> length news
                 = length (filter (\<lambda>e. e = None)
                     (fst (run chk db (map (\<lambda>(c, pl). Draft c pl) subs))))
             \<and> (\<forall>n \<in> set news. round' n = int (length ps) + 1 \<and> room_id n = room_ident r))
       \<and> ((\<forall>rows nw. chk rows nw = None) \<longrightarrow>
            fst (run chk db (map (\<lambda>(c, pl). Draft c pl) subs)) = replicate (length subs) None)"
  using assms(1)
proof (induction subs arbitrary: db)
  case Nil
  then show ?case by simp
next
  case (Cons s subs)
  obtain c pl where s: "s = (c, pl)" by (cases s)
  with Cons.prems obtain me where c: "room c = Some r" "coach c = Some me" "picks c = ps"
    "getCoachIdForPick (int (length (picks c)) + 1) (draft_order r) = Some (coach_ident me)"
    "nfl_team pl \<notin> myTeamsUsed c" "player_ident pl \<notin> draftedPlayerIds c"
    by (cases "coach c") auto
  from Cons.prems have rest: "\<forall>(c, pl) \<in> set subs. room c = Some r \<and> picks c = ps \<and>
      coach c \<noteq> None \<and>
      map_option coach_ident (coach c) = getCoachIdForPick (int (length ps) + 1) (draft_order r) \<and>
      nfl_team pl \<notin> myTeamsUsed c \<and> player_ident pl \<notin> draftedPlayerIds c"
    by simp
  let ?new = "\<lparr>pick_ident = serial db, room_id = room_ident r, coach_id = coach_ident me,
               round' = int (length ps) + 1, player_id = player_ident pl,
               created_at = serial db\<rparr>"
  let ?db' = "db\<lparr>picks_tbl := picks_tbl db @ [?new], serial := Suc (serial db)\<rparr>"
  note d = draftPlayer_commits [OF c(1,2) assms(2) c(4,5,6), of chk db, unfolded c(3)]
  show ?case
  proof (cases "chk (picks_tbl db) ?new")
    case (Some msg)
    with d have w: "draftPlayer chk c db pl = Inl (DbError msg)" by simp
    from Some have no: "\<not> (\<forall>rows nw. chk rows nw = None)"
      by (metis option.distinct(1))
    from Cons.IH [OF rest, of db]
    have "(\<forall>e \<in> set (fst (run chk db (map (\<lambda>(c, pl). Draft c pl) (s # subs)))).
            e = None \<or> (\<exists>msg. e = Some (DbError msg)))
       \<and> (\<exists>news. picks_tbl (snd (run chk db (map (\<lambda>(c, pl). Draft c pl) (s # subs))))
                    = picks_tbl db @ news
             \<and> length news
                 = length (filter (\<lambda>e. e = None)
                     (fst (run chk db (map (\<lambda>(c, pl). Draft c pl) (s # subs)))))
             \<and> (\<forall>n \<in> set news. round' n = int (length ps) + 1 \<and> room_id n = room_ident r))"
      by (simp add: s w run_Cons_fst run_Cons_snd del: run.simps)
    with no show ?thesis by blast
  next
    case None
    with d have w: "draftPlayer chk c db pl
                  = Inr (c\<lparr>picks := loadPicks ?db' (room_ident r)\<rparr>, ?db')" by simp
    from Cons.IH [OF rest, of ?db'] obtain news where
      n: "\<forall>e \<in> set (fst (run chk ?db' (map (\<lambda>(c, pl). Draft c pl) subs))).
            e = None \<or> (\<exists>msg. e = Some (DbError msg))"
      "picks_tbl (snd (run chk ?db' (map (\<lambda>(c, pl). Draft c pl) subs)))
         = picks_tbl ?db' @ news"
      "length news = length (filter (\<lambda>e. e = None)
                     (fst (run chk ?db' (map (\<lambda>(c, pl). Draft c pl) subs))))"
      "\<forall>n \<in> set news. round' n = int (length ps) + 1 \<and> room_id n = room_ident r"
      "(\<forall>rows nw. chk rows nw = None) \<longrightarrow>
            fst (run chk ?db' (map (\<lambda>(c, pl). Draft c pl) subs)) = replicate (length subs) None"
      by blast
    have "picks_tbl (snd (run chk db (map (\<lambda>(c, pl). Draft c pl) (s # subs))))
            = picks_tbl db @ (?new # news)
        \<and> length (?new # news)
            = length (filter (\<lambda>e. e = None)
                (fst (run chk db (map (\<lambda>(c, pl). Draft c pl) (s # subs)))))
        \<and> (\<forall>n \<in> set (?new # news). round' n = int (length ps) + 1 \<and> room_id n = room_ident r)"
      using n(2,3,4) by (simp add: s w run_Cons_fst run_Cons_snd del: run.simps)
    then have ex: "\<exists>news. picks_tbl (snd (run chk db (map (\<lambda>(c, pl). Draft c pl) (s # subs))))
            = picks_tbl db @ news
        \<and> length news
            = length (filter (\<lambda>e. e = None)
                (fst (run chk db (map (\<lambda>(c, pl). Draft c pl) (s # subs)))))
        \<and> (\<forall>n \<in> set news. round' n = int (length ps) + 1 \<and> room_id n = room_ident r)"
      by blast
    have "\<forall>e \<in> set (fst (run chk db (map (\<lambda>(c, pl). Draft c pl) (s # subs)))).
            e = None \<or> (\<exists>msg. e = Some (DbError msg))"
      using n(1) by (simp add: s w run_Cons_fst run_Cons_snd del: run.simps)
    moreover have "(\<forall>rows nw. chk rows nw = None) \<longrightarrow>
            fst (run chk db (map (\<lambda>(c, pl). Draft c pl) (s # subs)))
              = replicate (length (s # subs)) None"
      using n(5) by (simp add: s w run_Cons_fst run_Cons_snd del: run.simps)
    ultimately show ?thesis using ex by blast
  qed
qed

section \<open>The resolver without a draft order\<close>

text \<open>
  Claim C9. With an empty draft order the resolver fails for every pick number: it returns
  \<^verbatim>\<open>null\<close>, the only failure value it has, and the pick path, which asks for the
  order first, reports the missing configuration ("Draft order is not set for this
  room.").
\<close>

theorem getCoachIdForPick_empty_order:
  "getCoachIdForPick p [] = None
   \<and> (room c = Some r \<and> coach c = Some me \<and> draft_order r = [] \<longrightarrow>
        draftPlayer chk c db pl = Inl InvalidConfiguration)"
  by (simp add: getCoachIdForPick_def draftPlayer_def)

theorem getCoachIdForPick_empty_order_witness:
  "getCoachIdForPick 1 [] = None
   \<and> draft_order (ex_room\<lparr>draft_order := []\<rparr>) = []
   \<and> draftPlayer unconstrained
        ((ex_page ex_coachA (ex_db []))\<lparr>room := Some (ex_room\<lparr>draft_order := []\<rparr>)\<rparr>)
        (ex_db []) Mahomes = Inl InvalidConfiguration"
proof -
  let ?c = "(ex_page ex_coachA (ex_db []))\<lparr>room := Some (ex_room\<lparr>draft_order := []\<rparr>)\<rparr>"
  have a: "room ?c = Some (ex_room\<lparr>draft_order := []\<rparr>)" "coach ?c = Some ex_coachA"
    "draft_order (ex_room\<lparr>draft_order := []\<rparr>) = []"
    by (simp_all add: ex_page_def)
  with getCoachIdForPick_empty_order
         [of 1 ?c "ex_room\<lparr>draft_order := []\<rparr>" ex_coachA unconstrained "ex_db []" Mahomes]
  show ?thesis by simp
qed

section \<open>The turn check of the pick path\<close>

text \<open>
  Claim C2, as the code has it. With a room, a coach and a draft order loaded,
  \<open>draftPlayer\<close> reports \<open>OutOfTurn\<close> exactly when the coach of the page is not the
  one \<open>getCoachIdForPick\<close> names for the pick number \<open>L + 1\<close>, where \<open>L\<close> is the number
  of picks the page has loaded; \<open>L\<close> is the length of the ledger when the loaded picks
  are the current ones.
\<close>

theorem draftPlayer_turn_check:
  "room c = Some r \<and> coach c = Some me \<and> draft_order r \<noteq> [] \<longrightarrow>
     (draftPlayer chk c db pl = Inl OutOfTurn)
       = (getCoachIdForPick (int (length (picks c)) + 1) (draft_order r) \<noteq> Some (coach_ident me))
     \<and> (picks c = loadPicks db (room_ident r) \<longrightarrow>
          length (picks c) = length (ledger db (room_ident r)))"
  by (auto simp: draftPlayer_def split: sum.splits)

theorem draftPlayer_turn_check_witness:
  "room (ex_page ex_coachB (ex_db [])) = Some ex_room
   \<and> coach (ex_page ex_coachB (ex_db [])) = Some ex_coachB
   \<and> draft_order ex_room \<noteq> []
   \<and> getCoachIdForPick (int (length (picks (ex_page ex_coachB (ex_db [])))) + 1)
        (draft_order ex_room) = Some ''cA''
   \<and> coach_ident ex_coachB = ''cB''
   \<and> draftPlayer unconstrained (ex_page ex_coachB (ex_db [])) (ex_db []) Allen = Inl OutOfTurn"
proof -
  let ?c = "ex_page ex_coachB (ex_db [])"
  have a: "room ?c = Some ex_room" "coach ?c = Some ex_coachB" "draft_order ex_room \<noteq> []"
    by (simp_all add: ex_page_def ex_room_def)
  have b: "getCoachIdForPick (int (length (picks ?c)) + 1) (draft_order ex_room) = Some ''cA''"
    by code_simp
  have c: "coach_ident ex_coachB = ''cB''" by (simp add: ex_coachB_def)
  from a b c draftPlayer_turn_check [of ?c ex_room ex_coachB unconstrained "ex_db []" Allen]
  show ?thesis by simp
qed

text \<open>
  The claim as stated fails on a page that has not reloaded: the ledger holds one pick,
  so pick 2 belongs to coach \<open>cB\<close>, yet coach \<open>cA\<close>, whose page still shows no picks,
  is not told \<open>OutOfTurn\<close>. The insert goes through with pick number 1 again, or is
  refused by the database if it keeps pick numbers unique.
\<close>

theorem draftPlayer_turn_counterexample:
  "length (ledger (ex_db [ex_pick 0 ''cA'' 1 ''p1'']) ''r1'') = 1
   \<and> getCoachIdForPick (1 + 1) (draft_order ex_room) = Some ''cB''
   \<and> coach (ex_page ex_coachA (ex_db [])) = Some ex_coachA
   \<and> coach_ident ex_coachA = ''cA''
   \<and> map_sum id (\<lambda>x. map round' (ledger (snd x) ''r1''))
        (draftPlayer unconstrained (ex_page ex_coachA (ex_db []))
           (ex_db [ex_pick 0 ''cA'' 1 ''p1'']) Allen) = Inr [1, 1]
   \<and> draftPlayer unique_keys (ex_page ex_coachA (ex_db []))
        (ex_db [ex_pick 0 ''cA'' 1 ''p1'']) Allen
       = Inl (DbError ''duplicate key value violates unique constraint'')"
  by code_simp

section \<open>The order of the checks of the pick path\<close>

text \<open>
  Claim C8, as the code has it. With a room and a coach loaded, \<open>draftPlayer\<close> checks in
  this order and reports the first check that fails: no draft order
  (\<open>InvalidConfiguration\<close>), not the coach on the clock (\<open>OutOfTurn\<close>), a team the coach
  already holds (\<open>TeamConflict\<close>), a player already drafted (\<open>AlreadyDrafted\<close>).
\<close>

theorem draftPlayer_order_of_checks:
  "room c = Some r \<and> coach c = Some me \<longrightarrow>
     (draft_order r = [] \<longrightarrow> draftPlayer chk c db pl = Inl InvalidConfiguration)
   \<and> (draft_order r \<noteq> [] \<and>
      getCoachIdForPick (int (length (picks c)) + 1) (draft_order r) \<noteq> Some (coach_ident me)
        \<longrightarrow> draftPlayer chk c db pl = Inl OutOfTurn)
   \<and> (draft_order r \<noteq> [] \<and>
      getCoachIdForPick (int (length (picks c)) + 1) (draft_order r) = Some (coach_ident me) \<and>
      nfl_team pl \<in> myTeamsUsed c
        \<longrightarrow> draftPlayer chk c db pl = Inl TeamConflict)
   \<and> (draft_order r \<noteq> [] \<and>
      getCoachIdForPick (int (length (picks c)) + 1) (draft_order r) = Some (coach_ident me) \<and>
      nfl_team pl \<notin> myTeamsUsed c \<and> player_ident pl \<in> draftedPlayerIds c
        \<longrightarrow> draftPlayer chk c db pl = Inl AlreadyDrafted)"
  by (simp add: draftPlayer_def)

theorem draftPlayer_order_of_checks_witness:
  "room (ex_page ex_coachB (ex_db [ex_pick 0 ''cA'' 1 ''p3'', ex_pick 1 ''cB'' 2 ''p2'']))
     = Some ex_room
   \<and> coach (ex_page ex_coachB (ex_db [ex_pick 0 ''cA'' 1 ''p3'', ex_pick 1 ''cB'' 2 ''p2'']))
     = Some ex_coachB
   \<and> draft_order ex_room \<noteq> []
   \<and> getCoachIdForPick
        (int (length (picks (ex_page ex_coachB
           (ex_db [ex_pick 0 ''cA'' 1 ''p3'', ex_pick 1 ''cB'' 2 ''p2''])))) + 1)
        (draft_order ex_room) = Some (coach_ident ex_coachB)
   \<and> nfl_team Allen
       \<notin> myTeamsUsed (ex_page ex_coachB
            (ex_db [ex_pick 0 ''cA'' 1 ''p3'', ex_pick 1 ''cB'' 2 ''p2'']))
   \<and> player_ident Allen
       \<in> draftedPlayerIds (ex_page ex_coachB
            (ex_db [ex_pick 0 ''cA'' 1 ''p3'', ex_pick 1 ''cB'' 2 ''p2'']))
   \<and> nfl_team Kelce
       \<in> myTeamsUsed (ex_page ex_coachB
            (ex_db [ex_pick 0 ''cA'' 1 ''p3'', ex_pick 1 ''cB'' 2 ''p2'']))
   \<and> draftPlayer unconstrained
        (ex_page ex_coachB (ex_db [ex_pick 0 ''cA'' 1 ''p3'', ex_pick 1 ''cB'' 2 ''p2'']))
        (ex_db [ex_pick 0 ''cA'' 1 ''p3'', ex_pick 1 ''cB'' 2 ''p2'']) Allen
       = Inl AlreadyDrafted
   \<and> draftPlayer unconstrained
        (ex_page ex_coachB (ex_db [ex_pick 0 ''cA'' 1 ''p3'', ex_pick 1 ''cB'' 2 ''p2'']))
        (ex_db [ex_pick 0 ''cA'' 1 ''p3'', ex_pick 1 ''cB'' 2 ''p2'']) Kelce
       = Inl TeamConflict"
proof -
  let ?d = "ex_db [ex_pick 0 ''cA'' 1 ''p3'', ex_pick 1 ''cB'' 2 ''p2'']"
  let ?c = "ex_page ex_coachB ?d"
  have a: "room ?c = Some ex_room" "coach ?c = Some ex_coachB" "draft_order ex_room \<noteq> []"
    by (simp_all add: ex_page_def ex_room_def)
  have b: "getCoachIdForPick (int (length (picks ?c)) + 1) (draft_order ex_room)
             = Some (coach_ident ex_coachB)"
    by code_simp
  have c: "nfl_team Allen \<notin> myTeamsUsed ?c" "player_ident Allen \<in> draftedPlayerIds ?c"
    "nfl_team Kelce \<in> myTeamsUsed ?c"
    by code_simp+
  from a b c
    draftPlayer_order_of_checks [of ?c ex_room ex_coachB unconstrained ?d Allen]
    draftPlayer_order_of_checks [of ?c ex_room ex_coachB unconstrained ?d Kelce]
  show ?thesis by blast
qed

text \<open>
  The order the claim states puts \<open>AlreadyDrafted\<close> before \<open>TeamConflict\<close>. Coach
  \<open>cB\<close>, on the clock and holding Kelce of KC, submits Mahomes of KC, whom \<open>cA\<close> has
  drafted: both conditions hold, and the page reports \<open>TeamConflict\<close>.
\<close>

theorem draftPlayer_order_counterexample:
  "player_ident Mahomes
     \<in> draftedPlayerIds (ex_page ex_coachB
          (ex_db [ex_pick 0 ''cA'' 1 ''p1'', ex_pick 1 ''cB'' 2 ''p2'']))
   \<and> nfl_team Mahomes
       \<in> myTeamsUsed (ex_page ex_coachB
            (ex_db [ex_pick 0 ''cA'' 1 ''p1'', ex_pick 1 ''cB'' 2 ''p2'']))
   \<and> draftPlayer unconstrained
        (ex_page ex_coachB (ex_db [ex_pick 0 ''cA'' 1 ''p1'', ex_pick 1 ''cB'' 2 ''p2'']))
        (ex_db [ex_pick 0 ''cA'' 1 ''p1'', ex_pick 1 ''cB'' 2 ''p2'']) Mahomes
       = Inl TeamConflict"
  by code_simp

section \<open>Undoing the last pick\<close>

text \<open>
  Claim C7. On a loaded page, \<open>undoLastPick\<close> reports \<open>Forbidden\<close> to every coach who is not
  the commissioner, and writes nothing. For the commissioner who confirms the dialog it
  reports \<open>EmptyLedger\<close> when the room has no picks; otherwise it deletes one row of the
  room, a row with the greatest pick number, and no other row of the table (keys being
  unique).
\<close>

theorem undoLastPick_discipline:
  "room c = Some r \<and> room_ident r \<noteq> [] \<longrightarrow>
     (\<not> isCommissioner c \<longrightarrow> undoLastPick c ok db = Inl Forbidden)
   \<and> (isCommissioner c \<and> ok \<and> ledger db (room_ident r) = [] \<longrightarrow>
        undoLastPick c ok db = Inl EmptyLedger)
   \<and> (isCommissioner c \<and> ok \<and> ledger db (room_ident r) \<noteq> [] \<and>
      distinct (map pick_ident (picks_tbl db)) \<longrightarrow>
        (\<exists>l. l \<in> set (ledger db (room_ident r))
           \<and> (\<forall>x \<in> set (ledger db (room_ident r)). round' x \<le> round' l)
           \<and> undoLastPick c ok db
               = Inr (c\<lparr>picks := loadPicks (db\<lparr>picks_tbl := remove1 l (picks_tbl db)\<rparr>)
                                   (room_ident r)\<rparr>,
                      db\<lparr>picks_tbl := remove1 l (picks_tbl db)\<rparr>)))"
proof (intro impI conjI; (elim conjE)?)
  assume "room c = Some r" "room_ident r \<noteq> []" "\<not> isCommissioner c"
  then show "undoLastPick c ok db = Inl Forbidden"
    by (simp add: undoLastPick_def)
next
  assume "room c = Some r" "room_ident r \<noteq> []" "isCommissioner c" "ok"
    "ledger db (room_ident r) = []"
  then show "undoLastPick c ok db = Inl EmptyLedger"
    by (simp add: undoLastPick_def)
next
  assume a: "room c = Some r" "room_ident r \<noteq> []" "isCommissioner c" "ok"
    and ne: "ledger db (room_ident r) \<noteq> []"
    and keys: "distinct (map pick_ident (picks_tbl db))"
  from ne obtain l where l: "latest_pick (ledger db (room_ident r)) = Some l"
    by (cases "latest_pick (ledger db (room_ident r))") auto
  then have m: "l \<in> set (ledger db (room_ident r))"
    "\<forall>x \<in> set (ledger db (room_ident r)). round' x \<le> round' l"
    using latest_pick_max by blast+
  from m(1) have "l \<in> set (picks_tbl db)" by (simp add: ledger_def)
  with keys have "delete_pick db (pick_ident l) = db\<lparr>picks_tbl := remove1 l (picks_tbl db)\<rparr>"
    by (simp add: delete_pick_def delete_by_key)
  with a l have "undoLastPick c ok db
      = Inr (c\<lparr>picks := loadPicks (db\<lparr>picks_tbl := remove1 l (picks_tbl db)\<rparr>) (room_ident r)\<rparr>,
             db\<lparr>picks_tbl := remove1 l (picks_tbl db)\<rparr>)"
    by (simp add: undoLastPick_def Let_def)
  with m show "\<exists>l. l \<in> set (ledger db (room_ident r))
           \<and> (\<forall>x \<in> set (ledger db (room_ident r)). round' x \<le> round' l)
           \<and> undoLastPick c ok db
               = Inr (c\<lparr>picks := loadPicks (db\<lparr>picks_tbl := remove1 l (picks_tbl db)\<rparr>)
                                   (room_ident r)\<rparr>,
                      db\<lparr>picks_tbl := remove1 l (picks_tbl db)\<rparr>)"
    by blast
qed

theorem undoLastPick_discipline_witness:
  "room (ex_page ex_coachB (ex_db [ex_pick 0 ''cA'' 1 ''p1'', ex_pick 1 ''cB'' 2 ''p3'']))
     = Some ex_room
   \<and> room_ident ex_room \<noteq> []
   \<and> \<not> isCommissioner
        (ex_page ex_coachB (ex_db [ex_pick 0 ''cA'' 1 ''p1'', ex_pick 1 ''cB'' 2 ''p3'']))
   \<and> undoLastPick
        (ex_page ex_coachB (ex_db [ex_pick 0 ''cA'' 1 ''p1'', ex_pick 1 ''cB'' 2 ''p3''])) True
        (ex_db [ex_pick 0 ''cA'' 1 ''p1'', ex_pick 1 ''cB'' 2 ''p3'']) = Inl Forbidden
   \<and> isCommissioner (ex_page ex_coachA (ex_db []))
   \<and> ledger (ex_db []) (room_ident ex_room) = []
   \<and> undoLastPick (ex_page ex_coachA (ex_db [])) True (ex_db []) = Inl EmptyLedger
   \<and> map_sum id (\<lambda>x. picks_tbl (snd x))
        (undoLastPick
           (ex_page ex_coachA (ex_db [ex_pick 0 ''cA'' 1 ''p1'', ex_pick 1 ''cB'' 2 ''p3'']))
           True (ex_db [ex_pick 0 ''cA'' 1 ''p1'', ex_pick 1 ''cB'' 2 ''p3'']))
       = Inr [ex_pick 0 ''cA'' 1 ''p1'']"
proof -
  let ?d = "ex_db [ex_pick 0 ''cA'' 1 ''p1'', ex_pick 1 ''cB'' 2 ''p3'']"
  have a: "room (ex_page ex_coachB ?d) = Some ex_room" "room_ident ex_room \<noteq> []"
    "\<not> isCommissioner (ex_page ex_coachB ?d)"
    by code_simp+
  have b: "room (ex_page ex_coachA (ex_db [])) = Some ex_room"
    "isCommissioner (ex_page ex_coachA (ex_db []))"
    "ledger (ex_db []) (room_ident ex_room) = []"
    by code_simp+
  have c: "map_sum id (\<lambda>x. picks_tbl (snd x)) (undoLastPick (ex_page ex_coachA ?d) True ?d)
             = Inr [ex_pick 0 ''cA'' 1 ''p1'']"
    by code_simp
  from a undoLastPick_discipline [of "ex_page ex_coachB ?d" ex_room True ?d]
  have "undoLastPick (ex_page ex_coachB ?d) True ?d = Inl Forbidden" by blast
  moreover from b a(2)
    undoLastPick_discipline [of "ex_page ex_coachA (ex_db [])" ex_room True "ex_db []"]
  have "undoLastPick (ex_page ex_coachA (ex_db [])) True (ex_db []) = Inl EmptyLedger" by blast
  ultimately show ?thesis using a b c by simp
qed

section \<open>Racing for one slot\<close>

text \<open>
  Claim C3, as the code has it. Submissions race for the same pick number when their
  pages hold the same loaded picks, \<open>L\<close> of them, in a room with a draft order. Then a
  submission is answered \<open>OutOfTurn\<close> exactly when its coach is not the one
  \<open>getCoachIdForPick\<close> names for pick \<open>L + 1\<close>, and the database is unchanged when no
  submission goes through. Among submissions from different coaches at most one is
  answered otherwise; when the player of the coach on the clock passes the team and
  duplicate checks of the page and the database accepts the row, there is exactly one
  success, all the others are \<open>OutOfTurn\<close>, and the database is the old one with that one
  row, numbered \<open>L + 1\<close>, appended. Submissions of the coach on the clock that all pass the
  checks of their pages are not kept apart: each goes through or is refused by the
  database with its message, every row they add is numbered \<open>L + 1\<close>, and all go through
  when the database has no constraint.
\<close>

theorem race_for_one_slot:
  assumes "\<forall>(c, pl) \<in> set subs. room c = Some r \<and> picks c = ps \<and> coach c \<noteq> None"
    and "draft_order r \<noteq> []"
  shows "map (\<lambda>e. e = Some OutOfTurn) (fst (run chk db (map (\<lambda>(c, pl). Draft c pl) subs)))
           = map (\<lambda>(c, pl). map_option coach_ident (coach c)
                    \<noteq> getCoachIdForPick (int (length ps) + 1) (draft_order r)) subs
     \<and> (None \<notin> set (fst (run chk db (map (\<lambda>(c, pl). Draft c pl) subs))) \<longrightarrow>
          snd (run chk db (map (\<lambda>(c, pl). Draft c pl) subs)) = db)
     \<and> (distinct (map (\<lambda>(c, pl). map_option coach_ident (coach c)) subs) \<longrightarrow>
          length (filter (\<lambda>e. e \<noteq> Some OutOfTurn)
            (fst (run chk db (map (\<lambda>(c, pl). Draft c pl) subs)))) \<le> 1
        \<and> (\<forall>c pl me. (c, pl) \<in> set subs \<and> coach c = Some me \<and>
              getCoachIdForPick (int (length ps) + 1) (draft_order r) = Some (coach_ident me) \<and>
              nfl_team pl \<notin> myTeamsUsed c \<and> player_ident pl \<notin> draftedPlayerIds c \<and>
              chk (picks_tbl db)
                \<lparr>pick_ident = serial db, room_id = room_ident r, coach_id = coach_ident me,
                 round' = int (length ps) + 1, player_id = player_ident pl,
                 created_at = serial db\<rparr> = None \<longrightarrow>
              length (filter (\<lambda>e. e = None)
                (fst (run chk db (map (\<lambda>(c, pl). Draft c pl) subs)))) = 1
            \<and> length (filter (\<lambda>e. e = Some OutOfTurn)
                (fst (run chk db (map (\<lambda>(c, pl). Draft c pl) subs)))) = length subs - 1
            \<and> snd (run chk db (map (\<lambda>(c, pl). Draft c pl) subs))
                = db\<lparr>picks_tbl := picks_tbl db @
                        [\<lparr>pick_ident = serial db, room_id = room_ident r,
                          coach_id = coach_ident me, round' = int (length ps) + 1,
                          player_id = player_ident pl, created_at = serial db\<rparr>],
                      serial := Suc (serial db)\<rparr>))
     \<and> ((\<forall>(c, pl) \<in> set subs.
            map_option coach_ident (coach c)
              = getCoachIdForPick (int (length ps) + 1) (draft_order r) \<and>
            nfl_team pl \<notin> myTeamsUsed c \<and> player_ident pl \<notin> draftedPlayerIds c) \<longrightarrow>
          (\<forall>e \<in> set (fst (run chk db (map (\<lambda>(c, pl). Draft c pl) subs))).
             e = None \<or> (\<exists>msg. e = Some (DbError msg)))
        \<and> (\<exists>news. picks_tbl (snd (run chk db (map (\<lambda>(c, pl). Draft c pl) subs)))
                     = picks_tbl db @ news
              \<and> length news
                  = length (filter (\<lambda>e. e = None)
                      (fst (run chk db (map (\<lambda>(c, pl). Draft c pl) subs))))
              \<and> (\<forall>n \<in> set news. round' n = int (length ps) + 1 \<and> room_id n = room_ident r))
        \<and> ((\<forall>rows nw. chk rows nw = None) \<longrightarrow>
             fst (run chk db (map (\<lambda>(c, pl). Draft c pl) subs)) = replicate (length subs) None))"
proof (intro conjI impI)
  show "map (\<lambda>e. e = Some OutOfTurn) (fst (run chk db (map (\<lambda>(c, pl). Draft c pl) subs)))
           = map (\<lambda>(c, pl). map_option coach_ident (coach c)
                    \<noteq> getCoachIdForPick (int (length ps) + 1) (draft_order r)) subs"
    using assms by (rule run_out_of_turn_map)
next
  assume "None \<notin> set (fst (run chk db (map (\<lambda>(c, pl). Draft c pl) subs)))"
  then show "snd (run chk db (map (\<lambda>(c, pl). Draft c pl) subs)) = db"
    by (rule run_no_write)
next
  assume "distinct (map (\<lambda>(c, pl). map_option coach_ident (coach c)) subs)"
  with assms show "length (filter (\<lambda>e. e \<noteq> Some OutOfTurn)
            (fst (run chk db (map (\<lambda>(c, pl). Draft c pl) subs)))) \<le> 1"
    by (rule race_at_most_one)
next
  assume diff: "distinct (map (\<lambda>(c, pl). map_option coach_ident (coach c)) subs)"
  show "\<forall>c pl me. (c, pl) \<in> set subs \<and> coach c = Some me \<and>
              getCoachIdForPick (int (length ps) + 1) (draft_order r) = Some (coach_ident me) \<and>
              nfl_team pl \<notin> myTeamsUsed c \<and> player_ident pl \<notin> draftedPlayerIds c \<and>
              chk (picks_tbl db)
                \<lparr>pick_ident = serial db, room_id = room_ident r, coach_id = coach_ident me,
                 round' = int (length ps) + 1, player_id = player_ident pl,
                 created_at = serial db\<rparr> = None \<longrightarrow>
              length (filter (\<lambda>e. e = None)
                (fst (run chk db (map (\<lambda>(c, pl). Draft c pl) subs)))) = 1
            \<and> length (filter (\<lambda>e. e = Some OutOfTurn)
                (fst (run chk db (map (\<lambda>(c, pl). Draft c pl) subs)))) = length subs - 1
            \<and> snd (run chk db (map (\<lambda>(c, pl). Draft c pl) subs))
                = db\<lparr>picks_tbl := picks_tbl db @
                        [\<lparr>pick_ident = serial db, room_id = room_ident r,
                          coach_id = coach_ident me, round' = int (length ps) + 1,
                          player_id = player_ident pl, created_at = serial db\<rparr>],
                      serial := Suc (serial db)\<rparr>"
  proof (intro allI impI, elim conjE)
    fix c pl me
    assume s: "(c, pl) \<in> set subs" and me: "coach c = Some me"
      and turn: "getCoachIdForPick (int (length ps) + 1) (draft_order r) = Some (coach_ident me)"
      and free: "nfl_team pl \<notin> myTeamsUsed c" "player_ident pl \<notin> draftedPlayerIds c"
      and acc: "chk (picks_tbl db)
                \<lparr>pick_ident = serial db, room_id = room_ident r, coach_id = coach_ident me,
                 round' = int (length ps) + 1, player_id = player_ident pl,
                 created_at = serial db\<rparr> = None"
    from assms(1) s have c: "room c = Some r" "picks c = ps" by auto
    let ?db' = "db\<lparr>picks_tbl := picks_tbl db @
                        [\<lparr>pick_ident = serial db, room_id = room_ident r,
                          coach_id = coach_ident me, round' = int (length ps) + 1,
                          player_id = player_ident pl, created_at = serial db\<rparr>],
                      serial := Suc (serial db)\<rparr>"
    from turn c(2) have turn': "getCoachIdForPick (int (length (picks c)) + 1) (draft_order r)
                      = Some (coach_ident me)" by simp
    have "draftPlayer chk c db pl = Inr (c\<lparr>picks := loadPicks ?db' (room_ident r)\<rparr>, ?db')"
      using draftPlayer_commits [OF c(1) me assms(2) turn' free, of chk db] acc c(2) by simp
    with assms diff s show "length (filter (\<lambda>e. e = None)
                (fst (run chk db (map (\<lambda>(c, pl). Draft c pl) subs)))) = 1
            \<and> length (filter (\<lambda>e. e = Some OutOfTurn)
                (fst (run chk db (map (\<lambda>(c, pl). Draft c pl) subs)))) = length subs - 1
            \<and> snd (run chk db (map (\<lambda>(c, pl). Draft c pl) subs)) = ?db'"
      by (rule race_winner)
  qed
next
  assume same: "\<forall>(c, pl) \<in> set subs.
            map_option coach_ident (coach c)
              = getCoachIdForPick (int (length ps) + 1) (draft_order r) \<and>
            nfl_team pl \<notin> myTeamsUsed c \<and> player_ident pl \<notin> draftedPlayerIds c"
  with assms(1) have all: "\<forall>(c, pl) \<in> set subs. room c = Some r \<and> picks c = ps \<and>
             coach c \<noteq> None \<and>
             map_option coach_ident (coach c)
               = getCoachIdForPick (int (length ps) + 1) (draft_order r) \<and>
             nfl_team pl \<notin> myTeamsUsed c \<and> player_ident pl \<notin> draftedPlayerIds c"
    by fastforce
  note r = race_same_coach [OF all assms(2), of chk db]
  from r show "\<forall>e \<in> set (fst (run chk db (map (\<lambda>(c, pl). Draft c pl) subs))).
             e = None \<or> (\<exists>msg. e = Some (DbError msg))" by blast
  from r show "\<exists>news. picks_tbl (snd (run chk db (map (\<lambda>(c, pl). Draft c pl) subs)))
                     = picks_tbl db @ news
              \<and> length news
                  = length (filter (\<lambda>e. e = None)
                      (fst (run chk db (map (\<lambda>(c, pl). Draft c pl) subs))))
              \<and> (\<forall>n \<in> set news. round' n = int (length ps) + 1 \<and> room_id n = room_ident r)"
    by blast
  assume "\<forall>rows nw. chk rows nw = None"
  with r show "fst (run chk db (map (\<lambda>(c, pl). Draft c pl) subs)) = replicate (length subs) None"
    by blast
qed

theorem race_for_one_slot_witness:
  "draft_order ex_room \<noteq> []
   \<and> distinct (map (\<lambda>(c, pl). map_option coach_ident (coach c))
        [(ex_page ex_coachB (ex_db []), Allen), (ex_page ex_coachA (ex_db []), Mahomes)])
   \<and> getCoachIdForPick (int (length (loadPicks (ex_db []) ''r1'')) + 1) (draft_order ex_room)
       = Some (coach_ident ex_coachA)
   \<and> nfl_team Mahomes \<notin> myTeamsUsed (ex_page ex_coachA (ex_db []))
   \<and> player_ident Mahomes \<notin> draftedPlayerIds (ex_page ex_coachA (ex_db []))
   \<and> fst (run unconstrained (ex_db [])
        [Draft (ex_page ex_coachB (ex_db [])) Allen, Draft (ex_page ex_coachA (ex_db [])) Mahomes])
       = [Some OutOfTurn, None]
   \<and> snd (run unconstrained (ex_db [])
        [Draft (ex_page ex_coachB (ex_db [])) Allen, Draft (ex_page ex_coachA (ex_db [])) Mahomes])
       = ex_db [ex_pick 0 ''cA'' 1 ''p1'']
   \<and> fst (run unconstrained (ex_db [])
        [Draft (ex_page ex_coachA (ex_db [])) Mahomes, Draft (ex_page ex_coachA (ex_db [])) Allen])
       = [None, None]"
proof -
  let ?A = "ex_page ex_coachA (ex_db [])"
  let ?B = "ex_page ex_coachB (ex_db [])"
  let ?ps = "loadPicks (ex_db []) ''r1''"
  have order: "draft_order ex_room \<noteq> []" by (simp add: ex_room_def)
  have good: "\<forall>(c, pl) \<in> set [(?B, Allen), (?A, Mahomes)].
      room c = Some ex_room \<and> picks c = ?ps \<and> coach c \<noteq> None"
    by (simp add: ex_page_def)
  have diff: "distinct (map (\<lambda>(c, pl). map_option coach_ident (coach c))
                 [(?B, Allen), (?A, Mahomes)])"
    by code_simp
  have turn: "getCoachIdForPick (int (length ?ps) + 1) (draft_order ex_room)
                = Some (coach_ident ex_coachA)"
    by code_simp
  have free: "nfl_team Mahomes \<notin> myTeamsUsed ?A" "player_ident Mahomes \<notin> draftedPlayerIds ?A"
    "nfl_team Allen \<notin> myTeamsUsed ?A" "player_ident Allen \<notin> draftedPlayerIds ?A"
    by code_simp+
  have me: "coach ?A = Some ex_coachA" by (simp add: ex_page_def)
  have res: "fst (run unconstrained (ex_db []) [Draft ?B Allen, Draft ?A Mahomes])
               = [Some OutOfTurn, None]"
    by code_simp
  have row: "(ex_db [])\<lparr>picks_tbl := picks_tbl (ex_db []) @
                 [\<lparr>pick_ident = serial (ex_db []), room_id = room_ident ex_room,
                   coach_id = coach_ident ex_coachA, round' = int (length ?ps) + 1,
                   player_id = player_ident Mahomes, created_at = serial (ex_db [])\<rparr>],
               serial := Suc (serial (ex_db []))\<rparr>
             = ex_db [ex_pick 0 ''cA'' 1 ''p1'']"
    by code_simp
  have acts: "map (\<lambda>(c, pl). Draft c pl) [(?B, Allen), (?A, Mahomes)]
                = [Draft ?B Allen, Draft ?A Mahomes]"
    "map (\<lambda>(c, pl). Draft c pl) [(?A, Mahomes), (?A, Allen)]
                = [Draft ?A Mahomes, Draft ?A Allen]"
    by simp_all
  have pre: "(?A, Mahomes) \<in> set [(?B, Allen), (?A, Mahomes)] \<and> coach ?A = Some ex_coachA \<and>
      getCoachIdForPick (int (length ?ps) + 1) (draft_order ex_room)
        = Some (coach_ident ex_coachA) \<and>
      nfl_team Mahomes \<notin> myTeamsUsed ?A \<and> player_ident Mahomes \<notin> draftedPlayerIds ?A \<and>
      unconstrained (picks_tbl (ex_db []))
        \<lparr>pick_ident = serial (ex_db []), room_id = room_ident ex_room,
         coach_id = coach_ident ex_coachA, round' = int (length ?ps) + 1,
         player_id = player_ident Mahomes, created_at = serial (ex_db [])\<rparr> = None"
    using me turn free(1,2) by (simp add: unconstrained_def)
  note T = race_for_one_slot [OF good order, of unconstrained "ex_db []"]
  from T diff have "\<forall>c pl me. (c, pl) \<in> set [(?B, Allen), (?A, Mahomes)] \<and> coach c = Some me \<and>
      getCoachIdForPick (int (length ?ps) + 1) (draft_order ex_room) = Some (coach_ident me) \<and>
      nfl_team pl \<notin> myTeamsUsed c \<and> player_ident pl \<notin> draftedPlayerIds c \<and>
      unconstrained (picks_tbl (ex_db []))
        \<lparr>pick_ident = serial (ex_db []), room_id = room_ident ex_room,
         coach_id = coach_ident me, round' = int (length ?ps) + 1,
         player_id = player_ident pl, created_at = serial (ex_db [])\<rparr> = None \<longrightarrow>
      length (filter (\<lambda>e. e = None)
        (fst (run unconstrained (ex_db [])
           (map (\<lambda>(c, pl). Draft c pl) [(?B, Allen), (?A, Mahomes)])))) = 1
      \<and> length (filter (\<lambda>e. e = Some OutOfTurn)
        (fst (run unconstrained (ex_db [])
           (map (\<lambda>(c, pl). Draft c pl) [(?B, Allen), (?A, Mahomes)]))))
          = length [(?B, Allen), (?A, Mahomes)] - 1
      \<and> snd (run unconstrained (ex_db [])
           (map (\<lambda>(c, pl). Draft c pl) [(?B, Allen), (?A, Mahomes)]))
          = (ex_db [])\<lparr>picks_tbl := picks_tbl (ex_db []) @
                 [\<lparr>pick_ident = serial (ex_db []), room_id = room_ident ex_room,
                   coach_id = coach_ident me, round' = int (length ?ps) + 1,
                   player_id = player_ident pl, created_at = serial (ex_db [])\<rparr>],
               serial := Suc (serial (ex_db []))\<rparr>"
    by blast
  with pre have "snd (run unconstrained (ex_db [])
           (map (\<lambda>(c, pl). Draft c pl) [(?B, Allen), (?A, Mahomes)]))
          = (ex_db [])\<lparr>picks_tbl := picks_tbl (ex_db []) @
                 [\<lparr>pick_ident = serial (ex_db []), room_id = room_ident ex_room,
                   coach_id = coach_ident ex_coachA, round' = int (length ?ps) + 1,
                   player_id = player_ident Mahomes, created_at = serial (ex_db [])\<rparr>],
               serial := Suc (serial (ex_db []))\<rparr>"
    by blast
  then have win: "snd (run unconstrained (ex_db []) [Draft ?B Allen, Draft ?A Mahomes])
          = ex_db [ex_pick 0 ''cA'' 1 ''p1'']"
    unfolding acts row .
  have same: "\<forall>(c, pl) \<in> set [(?A, Mahomes), (?A, Allen)].
      room c = Some ex_room \<and> picks c = ?ps \<and> coach c \<noteq> None"
    by (simp add: ex_page_def)
  have onclock: "\<forall>(c, pl) \<in> set [(?A, Mahomes), (?A, Allen)].
      map_option coach_ident (coach c)
        = getCoachIdForPick (int (length ?ps) + 1) (draft_order ex_room) \<and>
      nfl_team pl \<notin> myTeamsUsed c \<and> player_ident pl \<notin> draftedPlayerIds c"
    using me turn free by simp
  have open_db: "\<forall>rows nw. unconstrained rows nw = None" by (simp add: unconstrained_def)
  note S = race_for_one_slot [OF same order, of unconstrained "ex_db []"]
  from S onclock open_db
  have "fst (run unconstrained (ex_db [])
          (map (\<lambda>(c, pl). Draft c pl) [(?A, Mahomes), (?A, Allen)]))
          = replicate (length [(?A, Mahomes), (?A, Allen)]) None"
    by blast
  then have both: "fst (run unconstrained (ex_db []) [Draft ?A Mahomes, Draft ?A Allen])
                     = [None, None]"
    unfolding acts by (simp add: numeral_2_eq_2)
  from order diff turn free(1,2) res win both show ?thesis by blast
qed

text \<open>
  Nothing keeps apart two submissions of the coach on the clock made from the same loaded
  picks (two tabs, or two clicks before the page reloads). Without constraints in the
  database both go through with pick number 1; with unique pick numbers the second is
  refused by the database, with its message and not with \<open>OutOfTurn\<close>,
  \<open>AlreadyDrafted\<close> or \<open>TeamConflict\<close>.
\<close>

theorem race_for_one_slot_counterexample:
  "fst (run unconstrained (ex_db [])
     [Draft (ex_page ex_coachA (ex_db [])) Mahomes, Draft (ex_page ex_coachA (ex_db [])) Allen])
     = [None, None]
   \<and> map round' (ledger (snd (run unconstrained (ex_db [])
        [Draft (ex_page ex_coachA (ex_db [])) Mahomes,
         Draft (ex_page ex_coachA (ex_db [])) Allen])) ''r1'') = [1, 1]
   \<and> fst (run unique_keys (ex_db [])
        [Draft (ex_page ex_coachA (ex_db [])) Mahomes, Draft (ex_page ex_coachA (ex_db [])) Allen])
       = [None, Some (DbError ''duplicate key value violates unique constraint'')]"
  by code_simp

section \<open>Pick numbers without gaps\<close>

text \<open>
  Claim C4, as the code has it. Start from an empty table of picks and let every write go
  through, each draft issued from a page in sync. Then in every room the stored pick
  numbers are \<open>1, ..., length\<close> in table order, so they form exactly the set
  \<open>{1, ..., length}\<close> without duplicates; a draft from a page in sync appends a row with
  the number \<open>length + 1\<close> of its room, and an undo removes one row, which has the greatest
  number of its room, and nothing else.
\<close>

theorem synced_run_contiguous:
  assumes "synced_run chk db0 db" "picks_tbl db0 = []"
  shows "map round' (ledger db rid) = [1..int (length (ledger db rid))]
     \<and> round' ` set (ledger db rid) = {1..int (length (ledger db rid))}
     \<and> distinct (map round' (ledger db rid))
     \<and> (\<forall>c pl c' db'. in_sync c db \<and> draftPlayer chk c db pl = Inr (c', db') \<longrightarrow>
          (\<exists>new. picks_tbl db' = picks_tbl db @ [new]
             \<and> round' new = int (length (ledger db (room_id new))) + 1))
     \<and> (\<forall>c ok c' db'. undoLastPick c ok db = Inr (c', db') \<longrightarrow>
          (\<exists>l. l \<in> set (picks_tbl db)
             \<and> (\<forall>x \<in> set (ledger db (room_id l)). round' x \<le> round' l)
             \<and> picks_tbl db' = remove1 l (picks_tbl db)))"
proof -
  from assms have inv: "keys_fresh db" "numbered db"
    using synced_run_numbered by blast+
  then have n: "map round' (ledger db rid) = [1..int (length (ledger db rid))]"
    by (simp add: numbered_def)
  have s: "round' ` set (ledger db rid) = {1..int (length (ledger db rid))}"
    using arg_cong [OF n, of set] by simp
  have d: "distinct (map round' (ledger db rid))"
    by (subst n) simp
  have app: "\<exists>new. picks_tbl db' = picks_tbl db @ [new]
             \<and> round' new = int (length (ledger db (room_id new))) + 1"
    if "in_sync c db" "draftPlayer chk c db pl = Inr (c', db')" for c pl c' db'
  proof -
    from inv(2) that obtain r me new where "room c = Some r" "coach c = Some me"
      "room_id new = room_ident r" "coach_id new = coach_ident me"
      "player_id new = player_ident pl" "pick_ident new = serial db"
      "round' new = int (length (ledger db (room_ident r))) + 1"
      "picks_tbl db' = picks_tbl db @ [new]" "serial db' = Suc (serial db)"
      "players_tbl db' = players_tbl db"
      "\<forall>rid. ledger db' rid = (if rid = room_ident r then ledger db rid @ [new] else ledger db rid)"
      "player_ident pl \<notin> player_id ` set (ledger db (room_ident r))"
      "nfl_team pl \<notin> set (teams_held db (room_ident r) (coach_ident me))"
      by (rule draft_step)
    then show ?thesis by auto
  qed
  have und: "\<exists>l. l \<in> set (picks_tbl db)
             \<and> (\<forall>x \<in> set (ledger db (room_id l)). round' x \<le> round' l)
             \<and> picks_tbl db' = remove1 l (picks_tbl db)"
    if "undoLastPick c ok db = Inr (c', db')" for c ok c' db'
  proof -
    from that obtain r l where "room c = Some r" "room_ident r \<noteq> []" "isCommissioner c" "ok"
      and u: "latest_pick (ledger db (room_ident r)) = Some l"
      "db' = delete_pick db (pick_ident l)"
      and "c' = c\<lparr>picks := loadPicks db' (room_ident r)\<rparr>"
      by (rule undoLastPick_Inr)
    from latest_pick_max [OF u(1)] have m: "l \<in> set (ledger db (room_ident r))"
      "\<forall>x \<in> set (ledger db (room_ident r)). round' x \<le> round' l" by simp_all
    from m(1) have l: "l \<in> set (picks_tbl db)" "room_id l = room_ident r"
      by (simp_all add: ledger_def)
    from inv(1) l(1) have "picks_tbl db' = remove1 l (picks_tbl db)"
      by (simp add: u(2) delete_pick_def keys_fresh_def delete_by_key)
    with m l show ?thesis by auto
  qed
  from n s d app und show ?thesis by blast
qed

theorem synced_run_contiguous_witness:
  "picks_tbl (ex_db []) = []
   \<and> synced_run unconstrained (ex_db [])
        (ex_db [ex_pick 0 ''cA'' 1 ''p1'', ex_pick 1 ''cB'' 2 ''p3''])
   \<and> map round' (ledger (ex_db [ex_pick 0 ''cA'' 1 ''p1'', ex_pick 1 ''cB'' 2 ''p3'']) ''r1'')
       = [1, 2]
   \<and> round' ` set (ledger (ex_db [ex_pick 0 ''cA'' 1 ''p1'', ex_pick 1 ''cB'' 2 ''p3'']) ''r1'')
       = {1..int (length
            (ledger (ex_db [ex_pick 0 ''cA'' 1 ''p1'', ex_pick 1 ''cB'' 2 ''p3'']) ''r1''))}"
proof -
  have e: "picks_tbl (ex_db []) = []" by (simp add: ex_db_def)
  have "map round' (ledger (ex_db [ex_pick 0 ''cA'' 1 ''p1'', ex_pick 1 ''cB'' 2 ''p3'']) ''r1'')
       = [1, 2]"
    by code_simp
  with e ex_synced_run synced_run_contiguous [OF ex_synced_run e, of "''r1''"]
  show ?thesis by simp
qed

text \<open>
  A draft from a page that has not reloaded takes its number from the stale list. Four
  writes go through: \<open>cA\<close> drafts, \<open>cB\<close> drafts, the commissioner undoes the second pick,
  and \<open>cB\<close>, whose page still shows two picks, drafts with the number 3. The ledger then
  has length 2 and the numbers 1 and 3, also when the database keeps pick numbers and
  players unique.
\<close>

theorem synced_run_contiguous_counterexample:
  "fst (run unconstrained (ex_db [])
     [Draft (ex_page ex_coachA (ex_db [])) Mahomes,
      Draft (ex_page ex_coachB (ex_db [ex_pick 0 ''cA'' 1 ''p1''])) Allen,
      Undo (ex_page ex_coachA (ex_db [ex_pick 0 ''cA'' 1 ''p1'', ex_pick 1 ''cB'' 2 ''p3''])) True,
      Draft (ex_page ex_coachB (ex_db [ex_pick 0 ''cA'' 1 ''p1'', ex_pick 1 ''cB'' 2 ''p3'']))
        Kelce])
     = [None, None, None, None]
   \<and> map round' (ledger (snd (run unconstrained (ex_db [])
     [Draft (ex_page ex_coachA (ex_db [])) Mahomes,
      Draft (ex_page ex_coachB (ex_db [ex_pick 0 ''cA'' 1 ''p1''])) Allen,
      Undo (ex_page ex_coachA (ex_db [ex_pick 0 ''cA'' 1 ''p1'', ex_pick 1 ''cB'' 2 ''p3''])) True,
      Draft (ex_page ex_coachB (ex_db [ex_pick 0 ''cA'' 1 ''p1'', ex_pick 1 ''cB'' 2 ''p3'']))
        Kelce])) ''r1'')
     = [1, 3]
   \<and> map round' (ledger (snd (run unique_keys (ex_db [])
     [Draft (ex_page ex_coachA (ex_db [])) Mahomes,
      Draft (ex_page ex_coachB (ex_db [ex_pick 0 ''cA'' 1 ''p1''])) Allen,
      Undo (ex_page ex_coachA (ex_db [ex_pick 0 ''cA'' 1 ''p1'', ex_pick 1 ''cB'' 2 ''p3''])) True,
      Draft (ex_page ex_coachB (ex_db [ex_pick 0 ''cA'' 1 ''p1'', ex_pick 1 ''cB'' 2 ''p3'']))
        Kelce])) ''r1'')
     = [1, 3]"
  by code_simp

section \<open>No player drafted twice\<close>




section \<open>One player per team\<close>




section \<open>The player pool\<close>

text \<open>
  Claim C10. Whatever the loaded players, the loaded picks, the search text and the
  position filter are (and whatever \<^verbatim>\<open>trim\<close> and \<^verbatim>\<open>toLowerCase\<close> do to the
  search text), no entry of \<open>availablePlayers\<close> has the position K or DST, and none has an
  id that is the \<^verbatim>\<open>player_id\<close> of a loaded pick.
\<close>

theorem availablePlayers_excludes:
  "\<forall>p \<in> set (availablePlayers trim toLowerCase c).
     position p \<noteq> ''K'' \<and> position p \<noteq> ''DST''
     \<and> player_ident p \<notin> player_id ` set (picks c)"
  by (auto simp: availablePlayers_def Let_def draftedPlayerIds_def)

theorem availablePlayers_excludes_witness:
  "map player_ident
     (availablePlayers ascii_trim ascii_toLowerCase
        ((ex_page ex_coachA (ex_db [ex_pick 0 ''cA'' 1 ''p1'']))\<lparr>search := '' Q ''\<rparr>))
     = [''p3'', ''p6'']
   \<and> position Allen \<noteq> ''K''
   \<and> position Allen \<noteq> ''DST''
   \<and> player_ident Allen
       \<notin> player_id ` set (picks (ex_page ex_coachA (ex_db [ex_pick 0 ''cA'' 1 ''p1''])))"
proof -
  let ?c = "(ex_page ex_coachA (ex_db [ex_pick 0 ''cA'' 1 ''p1'']))\<lparr>search := '' Q ''\<rparr>"
  have run: "availablePlayers ascii_trim ascii_toLowerCase ?c = [Allen, Newton]"
    by code_simp
  then have "Allen \<in> set (availablePlayers ascii_trim ascii_toLowerCase ?c)"
    by simp
  with availablePlayers_excludes [of ascii_trim ascii_toLowerCase ?c] run show ?thesis
    by (simp add: ex_player_def)
qed

end
